theory Spec2Isabelle
  imports Complex_Main "HOL-Library.AList" "HOL-Library.Multiset"
begin

section \<open>Python values: exceptions, dictionaries, loops\<close>

text \<open>
  Floats are idealised as \<^typ>\<open>real\<close>: every statement below is one of exact arithmetic.
  A raised exception is a value \<open>Inl e\<close>. \<open>ContradictoryEvidenceError\<close> is the error kind
  the specification names; no function of the repository raises it.
\<close>

datatype error = KeyError | IndexError | ZeroDivisionError | ContradictoryEvidenceError

definition bind_err :: "error + 'a \<Rightarrow> ('a \<Rightarrow> error + 'b) \<Rightarrow> error + 'b" where
  "bind_err r f = (case r of Inl e \<Rightarrow> Inl e | Inr v \<Rightarrow> f v)"

text \<open>
  A \<open>dict\<close> is an association list in insertion order with pairwise different keys:
  \<open>d[k]\<close> is \<open>lookup d k\<close>, \<open>d[k] = v\<close> and \<open>d.update({k: v})\<close> are \<open>AList.update k v d\<close>
  (the value is replaced in place, a new key is appended), \<open>for k in d\<close> runs through
  \<open>map fst d\<close> and \<open>len(d)\<close> is \<open>length d\<close>.
\<close>

definition lookup :: "('k \<times> 'v) list \<Rightarrow> 'k \<Rightarrow> error + 'v" where
  "lookup d k = (case map_of d k of None \<Rightarrow> Inl KeyError | Some v \<Rightarrow> Inr v)"

text \<open>A \<open>for\<close> loop whose body may raise: the first exception ends the loop.\<close>

fun for_each :: "('a \<Rightarrow> 's \<Rightarrow> error + 's) \<Rightarrow> 'a list \<Rightarrow> 's \<Rightarrow> error + 's" where
  "for_each body [] s = Inr s"
| "for_each body (x # xs) s = bind_err (body x s) (for_each body xs)"

text \<open>\<open>a / b\<close> where \<open>b\<close> may be zero.\<close>

definition py_div :: "real \<Rightarrow> real \<Rightarrow> error + real" where
  "py_div a b = (if b = 0 then Inl ZeroDivisionError else Inr (a / b))"

section \<open>PageRank (\<open>pagerank.py\<close>)\<close>

text \<open>
  A page is its file name. The corpus is a \<open>dict\<close> from a page to the \<open>set\<close> of pages it
  links to; such a set is the list of its elements in iteration order, without repetition.
\<close>

type_synonym page = string
type_synonym corpus = "(page \<times> page list) list"
type_synonym ranks = "(page \<times> real) list"

definition DAMPING :: real where
  "DAMPING = 0.85"

definition SAMPLES :: nat where
  "SAMPLES = 10000"

text \<open>
  What \<open>crawl\<close> guarantees: the keys are pairwise different, every set of links is a set,
  and every link target is a key of the corpus.
\<close>

definition wf_corpus :: "corpus \<Rightarrow> bool" where
  "wf_corpus corpus \<longleftrightarrow>
     distinct (map fst corpus) \<and>
     list_all (\<lambda>(p, links). distinct links \<and> list_all (\<lambda>q. q \<in> set (map fst corpus)) links) corpus"

subsection \<open>\<open>transition_model\<close>\<close>

text \<open>
  The body reads the global \<open>DAMPING\<close>; the parameter \<open>damping_factor\<close> is never read.
  The divisions are by \<open>num\<close> under \<open>num != 0\<close> and by \<open>len(corpus)\<close> inside a loop over
  the corpus, so none of them can raise.
\<close>

definition transition_model :: "corpus \<Rightarrow> page \<Rightarrow> real \<Rightarrow> error + ranks" where
  "transition_model corpus page damping_factor =
     (let model = fold (\<lambda>new_page model. AList.update new_page 0 model) (map fst corpus) []
      in bind_err (lookup corpus page) (\<lambda>links.
           let num = length links in
           if num \<noteq> 0 then
             let model = fold (\<lambda>new_page model. AList.update new_page (DAMPING / real num) model)
                           links model;
                 len = length corpus
             in for_each (\<lambda>new_page model. bind_err (lookup model new_page) (\<lambda>v.
                    Inr (AList.update new_page (v + (1 - DAMPING) / real len) model)))
                  (map fst corpus) model
           else
             let len = length corpus
             in Inr (fold (\<lambda>new_page model. AList.update new_page (1 / real len) model)
                      (map fst corpus) model)))"

subsection \<open>\<open>sample_pagerank\<close>\<close>

text \<open>
  The random source is a parameter: \<open>rnd i\<close> is the outcome of the \<open>i\<close>-th call of the
  \<open>random\<close> module, read as an index into the population. \<open>random.choice\<close> raises
  \<open>IndexError\<close> on an empty sequence. \<open>random.choices\<close> is over-approximated: any member
  of the population may be drawn, whatever the weights are.
\<close>

definition random_choice :: "'a list \<Rightarrow> nat \<Rightarrow> error + 'a" where
  "random_choice seq r = (if seq = [] then Inl IndexError else Inr (seq ! (r mod length seq)))"

definition random_choices :: "'a list \<Rightarrow> real list \<Rightarrow> nat \<Rightarrow> error + 'a" where
  "random_choices population weights r = random_choice population r"

definition sample_step ::
  "corpus \<Rightarrow> real \<Rightarrow> page list \<Rightarrow> (nat \<Rightarrow> nat) \<Rightarrow> nat \<Rightarrow> page \<times> ranks \<Rightarrow> error + page \<times> ranks" where
  "sample_step corpus damping_factor pageList rnd i =
     (\<lambda>(page, page_rank).
        bind_err (transition_model corpus page damping_factor) (\<lambda>model.
        bind_err (for_each (\<lambda>page2 prob. bind_err (lookup model page2) (\<lambda>w. Inr (prob @ [w])))
                    pageList []) (\<lambda>prob.
        bind_err (random_choices pageList prob (rnd (Suc i))) (\<lambda>page.
        bind_err (lookup page_rank page) (\<lambda>c.
          Inr (page, AList.update page (c + 1) page_rank))))))"

definition sample_pagerank :: "corpus \<Rightarrow> real \<Rightarrow> nat \<Rightarrow> (nat \<Rightarrow> nat) \<Rightarrow> error + ranks" where
  "sample_pagerank corpus damping_factor n rnd =
     (let page_rank = fold (\<lambda>page page_rank. AList.update page 0 page_rank) (map fst corpus) [];
          pageList = fold (\<lambda>page pageList. pageList @ [page]) (map fst corpus) []
      in bind_err (random_choice corpus (rnd 0)) (\<lambda>item.
         let page = fst item in
         bind_err (lookup page_rank page) (\<lambda>c.
         let page_rank = AList.update page (c + 1) page_rank in
         bind_err (for_each (sample_step corpus damping_factor pageList rnd) [0..<n - 1]
                     (page, page_rank)) (\<lambda>(page, page_rank).
           for_each (\<lambda>page page_rank. bind_err (lookup page_rank page) (\<lambda>c.
               bind_err (py_div c (real n)) (\<lambda>v. Inr (AList.update page v page_rank))))
             (map fst page_rank) page_rank))))"

subsection \<open>\<open>iterate_pagerank\<close>\<close>

text \<open>\<open>s.add(x)\<close> on a set.\<close>

definition set_add :: "'a \<Rightarrow> 'a list \<Rightarrow> 'a list" where
  "set_add x s = (if x \<in> set s then s else s @ [x])"

text \<open>Lines 152 to 159: \<open>page_link[q]\<close> is the set of the pages that link to \<open>q\<close>.\<close>

definition build_page_link :: "corpus \<Rightarrow> error + (page \<times> page list) list" where
  "build_page_link corpus =
     (let page_link = fold (\<lambda>page page_link. AList.update page [] page_link) (map fst corpus) []
      in for_each (\<lambda>page page_link. bind_err (lookup corpus page) (\<lambda>links.
           for_each (\<lambda>page2 page_link. bind_err (lookup page_link page2) (\<lambda>s.
               Inr (AList.update page2 (set_add page s) page_link)))
             links page_link))
         (map fst corpus) page_link)"

text \<open>
  What the second loop keeps true of \<open>page_link\<close>: a page listed under \<open>q\<close> has \<open>q\<close> among
  its links.
\<close>

definition parents_sound :: "corpus \<Rightarrow> (page \<times> page list) list \<Rightarrow> bool" where
  "parents_sound corpus page_link \<longleftrightarrow>
     (\<forall>q parents p. map_of page_link q = Some parents \<longrightarrow> p \<in> set parents \<longrightarrow>
        (\<exists>links. map_of corpus p = Some links \<and> q \<in> set links))"

text \<open>Lines 166 to 174: the sum \<open>s\<close> over the parents of one page.\<close>

definition parent_sum :: "corpus \<Rightarrow> ranks \<Rightarrow> nat \<Rightarrow> page list \<Rightarrow> error + real" where
  "parent_sum corpus page_rank n parents =
     for_each (\<lambda>parent_page s. bind_err (lookup corpus parent_page) (\<lambda>links.
         let num_links = length links in
         if num_links \<noteq> 0
         then bind_err (lookup page_rank parent_page) (\<lambda>r. Inr (s + r / real num_links))
         else bind_err (lookup page_rank parent_page) (\<lambda>r. Inr (s + r / real n))))
       parents 0"

text \<open>The same loop with the branch \<open>num_links != 0\<close> alone.\<close>

definition parent_sum_linked :: "corpus \<Rightarrow> ranks \<Rightarrow> page list \<Rightarrow> error + real" where
  "parent_sum_linked corpus page_rank parents =
     for_each (\<lambda>parent_page s. bind_err (lookup corpus parent_page) (\<lambda>links.
         bind_err (lookup page_rank parent_page) (\<lambda>r. Inr (s + r / real (length links)))))
       parents 0"

text \<open>
  Lines 165 to 179, the body of the loop over the pages: \<open>page_rank\<close> is read and written
  in place. The state is the flag \<open>ok\<close> and the dictionary \<open>page_rank\<close>.
\<close>

definition sweep_page ::
  "corpus \<Rightarrow> (page \<times> page list) list \<Rightarrow> real \<Rightarrow> nat \<Rightarrow> page \<Rightarrow> bool \<times> ranks \<Rightarrow> error + bool \<times> ranks" where
  "sweep_page corpus page_link damping_factor n page =
     (\<lambda>(ok, page_rank).
        bind_err (lookup page_link page) (\<lambda>parents.
        bind_err (parent_sum corpus page_rank n parents) (\<lambda>s.
          let new_rank = (1 - damping_factor) / real n + damping_factor * s in
          bind_err (lookup page_rank page) (\<lambda>old.
            Inr (if \<bar>old - new_rank\<bar> > 0.001 then False else ok,
                 AList.update page new_rank page_rank)))))"

text \<open>Lines 163 to 179: one pass of the \<open>while\<close> body.\<close>

definition sweep ::
  "corpus \<Rightarrow> (page \<times> page list) list \<Rightarrow> real \<Rightarrow> nat \<Rightarrow> ranks \<Rightarrow> error + bool \<times> ranks" where
  "sweep corpus page_link damping_factor n page_rank =
     for_each (sweep_page corpus page_link damping_factor n) (map fst corpus) (True, page_rank)"

text \<open>The \<open>while ok == False\<close> loop; it need not end, so its result is an option.\<close>

partial_function (option) iterate_loop ::
  "corpus \<Rightarrow> (page \<times> page list) list \<Rightarrow> real \<Rightarrow> nat \<Rightarrow> ranks \<Rightarrow> (error + ranks) option" where
  "iterate_loop corpus page_link damping_factor n page_rank =
     (case sweep corpus page_link damping_factor n page_rank of
        Inl e \<Rightarrow> Some (Inl e)
      | Inr (ok, page_rank') \<Rightarrow>
          if ok then Some (Inr page_rank')
          else iterate_loop corpus page_link damping_factor n page_rank')"

declare iterate_loop.simps [code]

definition iterate_pagerank :: "corpus \<Rightarrow> real \<Rightarrow> (error + ranks) option" where
  "iterate_pagerank corpus damping_factor =
     (let n = length corpus;
          page_rank = fold (\<lambda>page page_rank. AList.update page (1 / real n) page_rank)
                        (map fst corpus) []
      in case build_page_link corpus of
           Inl e \<Rightarrow> Some (Inl e)
         | Inr page_link \<Rightarrow> iterate_loop corpus page_link damping_factor n page_rank)"

subsection \<open>The specification's reading of a sweep\<close>

text \<open>
  The update the specification describes for one page \<open>q\<close>: every page that links to \<open>q\<close>
  contributes its rank divided by its number of links, and every page without links
  contributes its rank divided by \<open>N\<close>. The ranks are read from the map \<open>rank\<close>.
\<close>

definition out_degree :: "corpus \<Rightarrow> page \<Rightarrow> nat" where
  "out_degree corpus p = (case map_of corpus p of None \<Rightarrow> 0 | Some links \<Rightarrow> length links)"

definition links_to :: "corpus \<Rightarrow> page \<Rightarrow> page \<Rightarrow> bool" where
  "links_to corpus p q = (case map_of corpus p of None \<Rightarrow> False | Some links \<Rightarrow> q \<in> set links)"

definition spec_new_rank :: "corpus \<Rightarrow> real \<Rightarrow> (page \<Rightarrow> real) \<Rightarrow> page \<Rightarrow> real" where
  "spec_new_rank corpus d rank q =
     (1 - d) / real (length corpus) +
     d * ((\<Sum>p \<leftarrow> filter (\<lambda>p. links_to corpus p q) (map fst corpus).
             rank p / real (out_degree corpus p)) +
          (\<Sum>p \<leftarrow> filter (\<lambda>p. out_degree corpus p = 0) (map fst corpus).
             rank p / real (length corpus)))"

text \<open>
  The double-buffered sweep of the specification: every page is computed from the frozen
  \<open>snapshot\<close> of the previous sweep and written to a fresh buffer.
\<close>

definition sweep_page_sync ::
  "corpus \<Rightarrow> (page \<times> page list) list \<Rightarrow> real \<Rightarrow> nat \<Rightarrow> ranks \<Rightarrow> page \<Rightarrow> bool \<times> ranks
     \<Rightarrow> error + bool \<times> ranks" where
  "sweep_page_sync corpus page_link damping_factor n snapshot page =
     (\<lambda>(ok, buffer).
        bind_err (lookup page_link page) (\<lambda>parents.
        bind_err (parent_sum corpus snapshot n parents) (\<lambda>s.
          let new_rank = (1 - damping_factor) / real n + damping_factor * s in
          bind_err (lookup snapshot page) (\<lambda>old.
            Inr (if \<bar>old - new_rank\<bar> > 0.001 then False else ok,
                 AList.update page new_rank buffer)))))"

definition sweep_sync ::
  "corpus \<Rightarrow> (page \<times> page list) list \<Rightarrow> real \<Rightarrow> nat \<Rightarrow> ranks \<Rightarrow> error + bool \<times> ranks" where
  "sweep_sync corpus page_link damping_factor n page_rank =
     for_each (sweep_page_sync corpus page_link damping_factor n page_rank) (map fst corpus)
       (True, page_rank)"

text \<open>The double-buffered solver: the \<open>while\<close> loop over \<open>sweep_sync\<close>.\<close>

partial_function (option) iterate_loop_sync ::
  "corpus \<Rightarrow> (page \<times> page list) list \<Rightarrow> real \<Rightarrow> nat \<Rightarrow> ranks \<Rightarrow> (error + ranks) option" where
  "iterate_loop_sync corpus page_link damping_factor n page_rank =
     (case sweep_sync corpus page_link damping_factor n page_rank of
        Inl e \<Rightarrow> Some (Inl e)
      | Inr (ok, page_rank') \<Rightarrow>
          if ok then Some (Inr page_rank')
          else iterate_loop_sync corpus page_link damping_factor n page_rank')"

declare iterate_loop_sync.simps [code]

definition iterate_pagerank_sync :: "corpus \<Rightarrow> real \<Rightarrow> (error + ranks) option" where
  "iterate_pagerank_sync corpus damping_factor =
     (let n = length corpus;
          page_rank = fold (\<lambda>page page_rank. AList.update page (1 / real n) page_rank)
                        (map fst corpus) []
      in case build_page_link corpus of
           Inl e \<Rightarrow> Some (Inl e)
         | Inr page_link \<Rightarrow> iterate_loop_sync corpus page_link damping_factor n page_rank)"

section \<open>Heredity (\<open>heredity.py\<close>)\<close>

subsection \<open>The probability table \<open>PROBS\<close>\<close>

definition PROBS_gene :: "nat \<Rightarrow> real" where
  "PROBS_gene g = (if g = 2 then 0.01 else if g = 1 then 0.03 else 0.96)"

definition PROBS_trait :: "nat \<Rightarrow> bool \<Rightarrow> real" where
  "PROBS_trait g t =
     (if g = 2 then (if t then 0.65 else 0.35)
      else if g = 1 then (if t then 0.56 else 0.44)
      else (if t then 0.01 else 0.99))"

definition PROBS_mutation :: real where
  "PROBS_mutation = 0.01"

subsection \<open>The population\<close>

text \<open>
  One row of \<open>load_data\<close>: \<open>None\<close> is a blank field. \<open>people\<close> is the \<open>dict\<close> from a name
  to its row; \<open>for person in people\<close> with \<open>people[person]\<close> in the body runs through its
  items. The sets \<open>one_gene\<close>, \<open>two_genes\<close> and \<open>have_trait\<close> are only tested for membership.
\<close>

record person =
  name :: string
  mother :: "string option"
  father :: "string option"
  trait :: "bool option"

type_synonym people = "(string \<times> person) list"

text \<open>\<open>x in s\<close> where \<open>x\<close> may be \<open>None\<close>: the sets hold names only.\<close>

definition opt_in :: "string option \<Rightarrow> string set \<Rightarrow> bool" where
  "opt_in x s = (case x of None \<Rightarrow> False | Some y \<Rightarrow> y \<in> s)"

subsection \<open>\<open>joint_probability\<close>\<close>

text \<open>Lines 149 to 211: the factor \<open>prob\<close> of one person.\<close>

definition person_prob :: "string set \<Rightarrow> string set \<Rightarrow> string set \<Rightarrow> string \<Rightarrow> person \<Rightarrow> real" where
  "person_prob one_gene two_genes have_trait person row =
     (let prob_gene =
            (if mother row \<noteq> None then
               let pm = (if opt_in (mother row) one_gene then 0.5 - PROBS_mutation
                         else if opt_in (mother row) two_genes then 1 - PROBS_mutation
                         else PROBS_mutation);
                   pnm = 1 - pm;
                   pf = (if opt_in (father row) one_gene then 0.5 - PROBS_mutation
                         else if opt_in (father row) two_genes then 1 - PROBS_mutation
                         else PROBS_mutation);
                   pnf = 1 - pf
               in if person \<in> one_gene then pm * pnf + pf * pnm
                  else if person \<in> two_genes then pm * pf
                  else pnm * pnf
             else
               if person \<in> one_gene then PROBS_gene 1
               else if person \<in> two_genes then PROBS_gene 2
               else PROBS_gene 0);
          gene = (if person \<in> one_gene then 1 else if person \<in> two_genes then 2 else 0);
          trait = (if person \<in> have_trait then True else False);
          prob_trait = PROBS_trait gene trait
      in prob_gene * prob_trait)"

definition joint_probability :: "people \<Rightarrow> string set \<Rightarrow> string set \<Rightarrow> string set \<Rightarrow> real" where
  "joint_probability people one_gene two_genes have_trait =
     fold (\<lambda>(person, row) final_prob.
             final_prob * person_prob one_gene two_genes have_trait person row)
       people 1"

subsection \<open>\<open>update\<close> and \<open>normalize\<close>\<close>

text \<open>
  The accumulators of one person: \<open>gene_acc\<close> is the dictionary with the keys 0, 1, 2 and
  \<open>trait_acc\<close> the one with the keys \<open>True\<close> and \<open>False\<close>.
\<close>

record dist =
  gene_acc :: "nat \<Rightarrow> real"
  trait_acc :: "bool \<Rightarrow> real"

type_synonym probabilities = "(string \<times> dist) list"

definition update ::
  "probabilities \<Rightarrow> string set \<Rightarrow> string set \<Rightarrow> string set \<Rightarrow> real \<Rightarrow> probabilities" where
  "update probabilities one_gene two_genes have_trait p =
     map (\<lambda>(person, d).
            let gene = (if person \<in> one_gene then 1 else if person \<in> two_genes then 2 else 0);
                d = d\<lparr>gene_acc := (gene_acc d)(gene := gene_acc d gene + p)\<rparr>;
                trait = (if person \<in> have_trait then True else False)
            in (person, d\<lparr>trait_acc := (trait_acc d)(trait := trait_acc d trait + p)\<rparr>))
       probabilities"

text \<open>Lines 244 to 256: one person; \<open>1 / prob_sum\<close> raises when the sum is zero.\<close>

definition normalize_person :: "dist \<Rightarrow> error + dist" where
  "normalize_person d =
     (let prob_sum = fold (\<lambda>gene prob_sum. prob_sum + gene_acc d gene) [0..<3] 0 in
      bind_err (py_div 1 prob_sum) (\<lambda>constant.
        let d = fold (\<lambda>gene d. d\<lparr>gene_acc := (gene_acc d)(gene := gene_acc d gene * constant)\<rparr>)
                  [0..<3] d;
            prob_sum = trait_acc d False + trait_acc d True
        in bind_err (py_div 1 prob_sum) (\<lambda>constant.
             let d = d\<lparr>trait_acc := (trait_acc d)(False := trait_acc d False * constant)\<rparr>
             in Inr (d\<lparr>trait_acc := (trait_acc d)(True := trait_acc d True * constant)\<rparr>))))"

fun normalize :: "probabilities \<Rightarrow> error + probabilities" where
  "normalize [] = Inr []"
| "normalize ((person, d) # rest) =
     bind_err (normalize_person d) (\<lambda>d'.
       bind_err (normalize rest) (\<lambda>rest'. Inr ((person, d') # rest')))"

subsection \<open>\<open>powerset\<close> and the enumeration of \<open>main\<close>\<close>

text \<open>\<open>itertools.combinations(s, r)\<close>: the \<open>r\<close>-element subsequences in lexicographic order.\<close>

fun combinations :: "'a list \<Rightarrow> nat \<Rightarrow> 'a list list" where
  "combinations xs 0 = [[]]"
| "combinations [] (Suc r) = []"
| "combinations (x # xs) (Suc r) = map ((#) x) (combinations xs r) @ combinations xs (Suc r)"

text \<open>
  \<open>list(s)\<close> lists a set in its iteration order, which Python leaves open: the order is a
  parameter \<open>to_list\<close> of the model.
\<close>

definition powerset :: "('a set \<Rightarrow> 'a list) \<Rightarrow> 'a set \<Rightarrow> 'a set list" where
  "powerset to_list s =
     (let s = to_list s
      in map set (concat (map (\<lambda>r. combinations s r) [0..<length s + 1])))"

definition valid_order :: "('a set \<Rightarrow> 'a list) \<Rightarrow> 'a set \<Rightarrow> bool" where
  "valid_order to_list names \<longleftrightarrow> (\<forall>s \<in> Pow names. set (to_list s) = s \<and> distinct (to_list s))"

text \<open>Lines 72 to 76.\<close>

definition fails_evidence :: "people \<Rightarrow> string set \<Rightarrow> bool" where
  "fails_evidence people have_trait \<longleftrightarrow>
     (\<exists>(person, row) \<in> set people.
        trait row \<noteq> None \<and> trait row \<noteq> Some (person \<in> have_trait))"

text \<open>Lines 52 to 65.\<close>

definition init_probabilities :: "people \<Rightarrow> probabilities" where
  "init_probabilities people =
     map (\<lambda>(person, row). (person, \<lparr>gene_acc = (\<lambda>g. 0), trait_acc = (\<lambda>t. 0)\<rparr>)) people"

text \<open>Lines 68 to 86: the three nested loops.\<close>

definition main_loop :: "people \<Rightarrow> (string set \<Rightarrow> string list) \<Rightarrow> probabilities" where
  "main_loop people to_list =
     (let names = set (map fst people) in
      fold (\<lambda>have_trait probabilities.
              if fails_evidence people have_trait then probabilities
              else
                fold (\<lambda>one_gene probabilities.
                        fold (\<lambda>two_genes probabilities.
                                let p = joint_probability people one_gene two_genes have_trait
                                in update probabilities one_gene two_genes have_trait p)
                          (powerset to_list (names - one_gene)) probabilities)
                  (powerset to_list names) probabilities)
        (powerset to_list names) (init_probabilities people))"

text \<open>Lines 52 to 89: the result of \<open>main\<close> before it is printed.\<close>

definition main :: "people \<Rightarrow> (string set \<Rightarrow> string list) \<Rightarrow> error + probabilities" where
  "main people to_list = normalize (main_loop people to_list)"

text \<open>
  The worlds for which lines 85 and 86 run, in the order of the loops, as triples
  \<open>(one_gene, two_genes, have_trait)\<close>.
\<close>

definition gene_partitions :: "(string set \<Rightarrow> string list) \<Rightarrow> string set \<Rightarrow> (string set \<times> string set) list" where
  "gene_partitions to_list names =
     concat (map (\<lambda>one_gene. map (\<lambda>two_genes. (one_gene, two_genes))
                                (powerset to_list (names - one_gene)))
               (powerset to_list names))"

definition visits :: "people \<Rightarrow> (string set \<Rightarrow> string list) \<Rightarrow> (string set \<times> string set \<times> string set) list" where
  "visits people to_list =
     (let names = set (map fst people) in
      concat (map (\<lambda>have_trait.
                     if fails_evidence people have_trait then []
                     else map (\<lambda>(one_gene, two_genes). (one_gene, two_genes, have_trait))
                            (gene_partitions to_list names))
                (powerset to_list names)))"

subsection \<open>The specification's reading of a world\<close>

text \<open>
  A world assigns a gene count to every person: 1 in \<open>one_gene\<close>, 2 in \<open>two_genes\<close>, 0
  elsewhere, for disjoint sets.
\<close>

definition assigned_count :: "string set \<Rightarrow> string set \<Rightarrow> string \<Rightarrow> nat" where
  "assigned_count one_gene two_genes p =
     (if p \<in> two_genes then 2 else if p \<in> one_gene then 1 else 0)"

definition pass :: "nat \<Rightarrow> real" where
  "pass g = (if g = 2 then 1 - PROBS_mutation
             else if g = 1 then 0.5 - PROBS_mutation
             else PROBS_mutation)"

definition child_prob :: "real \<Rightarrow> real \<Rightarrow> nat \<Rightarrow> real" where
  "child_prob pm pf g =
     (if g = 2 then pm * pf
      else if g = 1 then pm * (1 - pf) + pf * (1 - pm)
      else (1 - pm) * (1 - pf))"

definition gene_factor :: "string set \<Rightarrow> string set \<Rightarrow> string \<Rightarrow> person \<Rightarrow> real" where
  "gene_factor one_gene two_genes p row =
     (case (mother row, father row) of
        (Some m, Some f) \<Rightarrow>
          child_prob (pass (assigned_count one_gene two_genes m))
            (pass (assigned_count one_gene two_genes f)) (assigned_count one_gene two_genes p)
      | _ \<Rightarrow> PROBS_gene (assigned_count one_gene two_genes p))"

definition trait_factor :: "string set \<Rightarrow> string set \<Rightarrow> string set \<Rightarrow> string \<Rightarrow> real" where
  "trait_factor one_gene two_genes have_trait p =
     PROBS_trait (assigned_count one_gene two_genes p) (p \<in> have_trait)"

text \<open>Both parents are recorded or neither is.\<close>

definition wf_people :: "people \<Rightarrow> bool" where
  "wf_people people \<longleftrightarrow>
     distinct (map fst people) \<and>
     list_all (\<lambda>(p, row). (mother row = None) = (father row = None)) people"

text \<open>The worlds that agree with the evidence, over the names of the population.\<close>

definition consistent_worlds :: "people \<Rightarrow> (string set \<times> string set \<times> string set) set" where
  "consistent_worlds people =
     (let names = set (map fst people) in
      {(one_gene, two_genes, have_trait) \<in> Pow names \<times> Pow names \<times> Pow names.
         one_gene \<inter> two_genes = {} \<and> \<not> fails_evidence people have_trait})"

text \<open>No person has recorded parents.\<close>

definition founders_only :: "people \<Rightarrow> bool" where
  "founders_only people \<longleftrightarrow>
     list_all (\<lambda>(p, row). mother row = None \<and> father row = None) people"

text \<open>
  The world that gives person \<open>p\<close> the gene count \<open>g\<close> and the trait \<open>t\<close> and agrees with
  \<open>(one_gene, two_genes, have_trait)\<close> on every other person.
\<close>

definition reassign ::
  "string \<Rightarrow> nat \<Rightarrow> bool \<Rightarrow> string set \<times> string set \<times> string set
     \<Rightarrow> string set \<times> string set \<times> string set" where
  "reassign p g t =
     (\<lambda>(one_gene, two_genes, have_trait).
        (if g = 1 then insert p one_gene else one_gene - {p},
         if g = 2 then insert p two_genes else two_genes - {p},
         if t then insert p have_trait else have_trait - {p}))"

text \<open>
  The worlds that agree with the evidence and give person \<open>p\<close> the gene count \<open>g\<close> and the
  trait \<open>t\<close>.
\<close>

definition worlds_of ::
  "people \<Rightarrow> string \<Rightarrow> nat \<Rightarrow> bool \<Rightarrow> (string set \<times> string set \<times> string set) set" where
  "worlds_of people p g t =
     {(one_gene, two_genes, have_trait) \<in> consistent_worlds people.
        assigned_count one_gene two_genes p = g \<and> (p \<in> have_trait) = t}"

section \<open>Test data\<close>

text \<open>Two pages that link to each other.\<close>

definition ring2 :: corpus where
  "ring2 = [(''A'', [''B'']), (''B'', [''A''])]"

text \<open>A page \<open>A\<close> that links to a page \<open>B\<close> without links.\<close>

definition dangling2 :: corpus where
  "dangling2 = [(''A'', [''B'']), (''B'', [])]"

text \<open>Three pages with a cycle, in two orders of the same dictionary.\<close>

definition tri :: corpus where
  "tri = [(''A'', [''B'']), (''B'', [''A'']), (''C'', [''A''])]"

definition tri_rev :: corpus where
  "tri_rev = [(''C'', [''A'']), (''B'', [''A'']), (''A'', [''B''])]"

text \<open>Their inverted links, as \<open>build_page_link\<close> computes them.\<close>

abbreviation (input) tri_link :: "(page \<times> page list) list" where
  "tri_link \<equiv> [(''A'', [''B'', ''C'']), (''B'', [''A'']), (''C'', [])]"

abbreviation (input) tri_rev_link :: "(page \<times> page list) list" where
  "tri_rev_link \<equiv> [(''C'', []), (''B'', [''A'']), (''A'', [''C'', ''B''])]"

text \<open>The family of the repository's sample data: Harry is the child of Lily and James.\<close>

definition family :: people where
  "family =
     [(''Harry'', \<lparr>name = ''Harry'', mother = Some ''Lily'', father = Some ''James'', trait = None\<rparr>),
      (''James'', \<lparr>name = ''James'', mother = None, father = None, trait = Some True\<rparr>),
      (''Lily'', \<lparr>name = ''Lily'', mother = None, father = None, trait = Some False\<rparr>)]"

text \<open>One person without parents who shows the trait.\<close>

definition harry_only :: people where
  "harry_only =
     [(''Harry'', \<lparr>name = ''Harry'', mother = None, father = None, trait = Some True\<rparr>)]"

text \<open>An iteration order of the sets of names: the order of the sample data.\<close>

definition name_order :: "string set \<Rightarrow> string list" where
  "name_order s = filter (\<lambda>x. x \<in> s) [''Harry'', ''James'', ''Lily'']"

text \<open>Two persons without parents: James shows the trait, nothing is known of Lily.\<close>

definition lily :: person where
  "lily = \<lparr>name = ''Lily'', mother = None, father = None, trait = None\<rparr>"

definition founders2 :: people where
  "founders2 =
     [(''James'', \<lparr>name = ''James'', mother = None, father = None, trait = Some True\<rparr>),
      (''Lily'', lily)]"

section \<open>Dictionaries and loops\<close>

lemma bind_err_simps [simp]:
  "bind_err (Inr v) f = f v"
  "bind_err (Inl e) f = Inl e"
  by (simp_all add: bind_err_def)

lemma lookup_Some: "map_of d k = Some v \<Longrightarrow> lookup d k = Inr v"
  by (simp add: lookup_def)

lemma lookup_None: "map_of d k = None \<Longrightarrow> lookup d k = Inl KeyError"
  by (simp add: lookup_def)

lemma lookup_Inr_iff: "lookup d k = Inr v \<longleftrightarrow> map_of d k = Some v"
  by (simp add: lookup_def split: option.splits)

lemma update_absent: "k \<notin> fst ` set al \<Longrightarrow> AList.update k v al = al @ [(k, v)]"
  by (induction al) auto

lemma update_keys_present: "k \<in> fst ` set al \<Longrightarrow> map fst (AList.update k v al) = map fst al"
  by (simp add: update_keys)

lemma fold_update_fresh:
  "distinct ks \<Longrightarrow> set ks \<inter> fst ` set al = {} \<Longrightarrow>
   fold (\<lambda>k m. AList.update k (f k) m) ks al = al @ map (\<lambda>k. (k, f k)) ks"
proof (induction ks arbitrary: al)
  case Nil
  then show ?case by simp
next
  case (Cons k ks)
  have "AList.update k (f k) al = al @ [(k, f k)]"
    using Cons.prems by (intro update_absent) auto
  moreover have "set ks \<inter> fst ` set (al @ [(k, f k)]) = {}"
    using Cons.prems by auto
  ultimately show ?case
    using Cons.IH [of "al @ [(k, f k)]"] Cons.prems by simp
qed

lemma fold_update_empty:
  "distinct ks \<Longrightarrow> fold (\<lambda>k m. AList.update k (f k) m) ks [] = map (\<lambda>k. (k, f k)) ks"
  using fold_update_fresh [of ks "[]" f] by simp

lemma keys_fold_update:
  "set xs \<subseteq> fst ` set al \<Longrightarrow> map fst (fold (\<lambda>k m. AList.update k (f k) m) xs al) = map fst al"
proof (induction xs arbitrary: al)
  case Nil
  then show ?case by simp
next
  case (Cons x xs)
  have k: "map fst (AList.update x (f x) al) = map fst al"
    using Cons.prems by (simp add: update_keys_present)
  then have "set xs \<subseteq> fst ` set (AList.update x (f x) al)"
    using Cons.prems by (metis list.set_map set_subset_Cons subset_trans)
  then show ?case using Cons.IH k by simp
qed

lemma map_of_fold_update:
  "map_of (fold (\<lambda>k m. AList.update k (f k) m) xs al) k' =
     (if k' \<in> set xs then Some (f k') else map_of al k')"
  by (induction xs arbitrary: al) (auto simp: update_conv')

lemma for_each_update:
  fixes h :: "'k \<Rightarrow> 'v \<Rightarrow> 'v"
  assumes "distinct xs" "set xs \<subseteq> fst ` set al"
  shows "\<exists>al'. for_each (\<lambda>k m. bind_err (lookup m k) (\<lambda>v. Inr (AList.update k (h k v) m))) xs al = Inr al'
           \<and> map fst al' = map fst al
           \<and> (\<forall>k. map_of al' k = (if k \<in> set xs then map_option (h k) (map_of al k) else map_of al k))"
  using assms
proof (induction xs arbitrary: al)
  case Nil
  then show ?case by simp
next
  case (Cons x xs)
  let ?body = "\<lambda>k m. bind_err (lookup m k) (\<lambda>v. Inr (AList.update k (h k v) m))"
  from Cons.prems obtain v where v: "map_of al x = Some v"
    by (metis list.set_intros(1) subsetD weak_map_of_SomeI imageE prod.collapse map_of_eq_None_iff not_Some_eq)
  let ?al = "AList.update x (h x v) al"
  have keys: "map fst ?al = map fst al"
    using Cons.prems by (simp add: update_keys_present)
  have sub: "set xs \<subseteq> fst ` set ?al"
    using Cons.prems keys by (metis list.set_map set_subset_Cons subset_trans)
  from Cons.IH [OF _ sub] Cons.prems obtain al' where
    al': "for_each ?body xs ?al = Inr al'" "map fst al' = map fst ?al"
      "\<forall>k. map_of al' k = (if k \<in> set xs then map_option (h k) (map_of ?al k) else map_of ?al k)"
    by auto
  have "for_each ?body (x # xs) al = Inr al'"
    using v al'(1) by (simp add: lookup_Some)
  moreover have "map fst al' = map fst al"
    using al'(2) keys by simp
  moreover have "\<forall>k. map_of al' k = (if k \<in> set (x # xs) then map_option (h k) (map_of al k) else map_of al k)"
    using al'(3) v Cons.prems(1) by (auto simp: update_conv')
  ultimately show ?case by blast
qed

lemma snd_by_keys:
  "distinct (map fst al) \<Longrightarrow> map snd al = map (\<lambda>k. the (map_of al k)) (map fst al)"
proof (induction al)
  case Nil
  then show ?case by simp
next
  case (Cons a al)
  obtain k v where a: "a = (k, v)" by (cases a)
  have "map (\<lambda>k'. the (map_of (a # al) k')) (map fst al) = map (\<lambda>k'. the (map_of al k')) (map fst al)"
    using Cons.prems a by (intro map_cong) auto
  then show ?case using Cons a by simp
qed


lemma snd_via_keys:
  "distinct ks \<Longrightarrow> map fst al = ks \<Longrightarrow> map snd al = map (\<lambda>k. the (map_of al k)) ks"
  using snd_by_keys [of al] by blast

lemma sum_list_const:
  fixes c :: real
  shows "(\<Sum>k\<leftarrow>ks. c) = real (length ks) * c"
  by (induction ks) (auto simp: algebra_simps)

lemma sum_list_indicator:
  fixes c :: real
  shows "(\<Sum>k\<leftarrow>ks. if P k then c else 0) = c * real (length (filter P ks))"
  by (induction ks) (auto simp: algebra_simps)

lemma filter_mem_length:
  assumes "distinct ks" "distinct links" "set links \<subseteq> set ks"
  shows "length (filter (\<lambda>k. k \<in> set links) ks) = length links"
proof -
  have "length (filter (\<lambda>k. k \<in> set links) ks) = card ({k. k \<in> set links} \<inter> set ks)"
    using assms(1) by (rule distinct_length_filter)
  also have "{k. k \<in> set links} \<inter> set ks = set links"
    using assms(3) by auto
  also have "card (set links) = length links"
    using assms(2) by (rule distinct_card)
  finally show ?thesis .
qed

lemma wf_corpus_links:
  assumes "wf_corpus corpus" "map_of corpus page = Some links"
  shows "distinct links" "set links \<subseteq> set (map fst corpus)"
proof -
  have "(page, links) \<in> set corpus"
    using assms(2) by (rule map_of_SomeD)
  then have "distinct links \<and> list_all (\<lambda>q. q \<in> set (map fst corpus)) links"
    using assms(1) unfolding wf_corpus_def list_all_iff by auto
  then show "distinct links" "set links \<subseteq> set (map fst corpus)"
    by (auto simp: list_all_iff)
qed

lemma in_keys_map_of: "k \<in> set (map fst al) \<Longrightarrow> \<exists>v. map_of al k = Some v"
  by (metis map_of_eq_None_iff not_Some_eq set_map)

lemma bind_err_Inr_iff: "bind_err r f = Inr v \<longleftrightarrow> (\<exists>u. r = Inr u \<and> f u = Inr v)"
  by (cases r) auto

lemma for_each_append:
  "for_each body (xs @ ys) s = bind_err (for_each body xs s) (for_each body ys)"
proof (induction xs arbitrary: s)
  case Nil
  then show ?case by simp
next
  case (Cons x xs)
  then show ?case by (cases "body x s") auto
qed

lemma for_each_cong_on:
  "(\<And>x s. x \<in> set xs \<Longrightarrow> f x s = g x s) \<Longrightarrow> for_each f xs s = for_each g xs s"
proof (induction xs arbitrary: s)
  case Nil
  then show ?case by simp
next
  case (Cons x xs)
  have "f x s = g x s" using Cons.prems by simp
  moreover have "for_each f xs = for_each g xs"
    using Cons by (intro ext) auto
  ultimately show ?case by simp
qed

lemma for_each_invariant:
  assumes "for_each body xs s = Inr s'" "I s"
    and "\<And>x t t'. x \<in> set xs \<Longrightarrow> I t \<Longrightarrow> body x t = Inr t' \<Longrightarrow> I t'"
  shows "I s'"
  using assms
proof (induction xs arbitrary: s)
  case Nil
  then show ?case by simp
next
  case (Cons x xs)
  from Cons.prems(1) obtain t where t: "body x s = Inr t" "for_each body xs t = Inr s'"
    by (auto simp: bind_err_Inr_iff)
  have "I t" using Cons.prems(2,3) t(1) by auto
  then show ?case using Cons.IH [OF t(2)] Cons.prems(3) by auto
qed

lemma map_of_in_keys: "map_of al k = Some v \<Longrightarrow> k \<in> fst ` set al"
  by (metis map_of_eq_None_iff option.distinct(1))

lemma update_keys_Some: "map_of al k = Some v \<Longrightarrow> map fst (AList.update k v' al) = map fst al"
  by (rule update_keys_present) (rule map_of_in_keys)

lemma page_link_add_sound:
  assumes "parents_sound corpus pl" "map_of corpus page = Some links" "page2 \<in> set links"
    "map_of pl page2 = Some s"
  shows "parents_sound corpus (AList.update page2 (set_add page s) pl)"
  using assms unfolding parents_sound_def
  by (auto simp: update_conv' set_add_def split: if_splits)

lemma build_page_link_sound:
  assumes "build_page_link corpus = Inr page_link"
  shows "parents_sound corpus page_link"
proof -
  let ?init = "fold (\<lambda>page page_link. AList.update page ([]::page list) page_link) (map fst corpus) []"
  let ?inner = "\<lambda>page page2 page_link. bind_err (lookup page_link page2) (\<lambda>s.
               Inr (AList.update page2 (set_add page s) page_link))"
  let ?outer = "\<lambda>page page_link. bind_err (lookup corpus page) (\<lambda>links.
           for_each (?inner page) links page_link)"
  have run: "for_each ?outer (map fst corpus) ?init = Inr page_link"
    using assms by (simp add: build_page_link_def)
  have init: "parents_sound corpus ?init"
    unfolding parents_sound_def
    using map_of_fold_update [where f = "\<lambda>_. []::page list" and xs = "map fst corpus" and al = "[]"]
    by (auto split: if_splits)
  show ?thesis
  proof (rule for_each_invariant [where I = "parents_sound corpus", OF run init])
    fix page t t'
    assume t: "parents_sound corpus t" and step: "?outer page t = Inr t'"
    from step obtain links where links: "map_of corpus page = Some links"
      and inner: "for_each (?inner page) links t = Inr t'"
      by (auto simp: bind_err_Inr_iff lookup_Inr_iff)
    show "parents_sound corpus t'"
    proof (rule for_each_invariant [where I = "parents_sound corpus", OF inner t])
      fix page2 u u'
      assume "page2 \<in> set links" "parents_sound corpus u" "?inner page page2 u = Inr u'"
      then show "parents_sound corpus u'"
        using links by (auto simp: bind_err_Inr_iff lookup_Inr_iff intro: page_link_add_sound)
    qed
  qed
qed

lemma build_page_link_keys:
  assumes "build_page_link corpus = Inr page_link" "distinct (map fst corpus)"
  shows "map fst page_link = map fst corpus"
proof -
  let ?init = "fold (\<lambda>page page_link. AList.update page ([]::page list) page_link) (map fst corpus) []"
  let ?inner = "\<lambda>page page2 page_link. bind_err (lookup page_link page2) (\<lambda>s.
               Inr (AList.update page2 (set_add page s) page_link))"
  let ?outer = "\<lambda>page page_link. bind_err (lookup corpus page) (\<lambda>links.
           for_each (?inner page) links page_link)"
  have run: "for_each ?outer (map fst corpus) ?init = Inr page_link"
    using assms by (simp add: build_page_link_def)
  have "?init = map (\<lambda>k. (k, [])) (map fst corpus)"
    by (rule fold_update_empty [OF assms(2)])
  then have init: "map fst ?init = map fst corpus"
    by (simp add: comp_def)
  show ?thesis
  proof (rule for_each_invariant [where I = "\<lambda>t. map fst t = map fst corpus", OF run init])
    fix page t t'
    assume t: "map fst t = map fst corpus" and step: "?outer page t = Inr t'"
    from step obtain links where inner: "for_each (?inner page) links t = Inr t'"
      by (auto simp: bind_err_Inr_iff)
    show "map fst t' = map fst corpus"
    proof (rule for_each_invariant [where I = "\<lambda>t. map fst t = map fst corpus", OF inner t])
      fix page2 u u'
      assume "map fst u = map fst corpus" "?inner page page2 u = Inr u'"
      then show "map fst u' = map fst corpus"
        by (auto simp: bind_err_Inr_iff lookup_Inr_iff update_keys_Some)
    qed
  qed
qed

section \<open>The transition model\<close>

lemma transition_model_dist:
  assumes wf: "wf_corpus corpus" and page: "page \<in> set (map fst corpus)"
  shows "\<exists>model. transition_model corpus page damping_factor = Inr model
           \<and> map fst model = map fst corpus \<and> sum_list (map snd model) = 1"
proof -
  let ?ks = "map fst corpus"
  let ?N = "real (length corpus)"
  have dk: "distinct ?ks" using wf by (simp add: wf_corpus_def)
  have N: "?N > 0" using page by (cases corpus) auto
  obtain links where links: "map_of corpus page = Some links"
    using in_keys_map_of [OF page] by blast
  have dl: "distinct links" and sub: "set links \<subseteq> set ?ks"
    using wf_corpus_links [OF wf links] by auto
  let ?init = "map (\<lambda>k. (k, 0::real)) ?ks"
  have m0: "fold (\<lambda>new_page model. AList.update new_page 0 model) ?ks [] = ?init"
    using fold_update_empty [OF dk, of "\<lambda>_. 0::real"] by simp
  have keys0: "map fst ?init = ?ks" by (simp add: comp_def)
  have sub0: "set ?ks \<subseteq> fst ` set ?init"
    using keys0 by (metis list.set_map subset_refl)
  have sub0': "set links \<subseteq> fst ` set ?init"
    using sub0 sub by (rule_tac subset_trans)
  show ?thesis
  proof (cases "links = []")
    case True
    let ?m = "fold (\<lambda>new_page model. AList.update new_page (1 / ?N) model) ?ks ?init"
    have res: "transition_model corpus page damping_factor = Inr ?m"
      using links True m0 by (simp add: transition_model_def lookup_Some Let_def)
    have keys: "map fst ?m = ?ks"
      using keys_fold_update [OF sub0, of "\<lambda>_. 1 / ?N"] keys0 by simp
    have "map snd ?m = map (\<lambda>k. the (map_of ?m k)) ?ks"
      by (rule snd_via_keys [OF dk keys])
    also have "\<dots> = map (\<lambda>k. 1 / ?N) ?ks"
      by (intro map_cong) (auto simp: map_of_fold_update)
    finally have "sum_list (map snd ?m) = (\<Sum>k\<leftarrow>?ks. 1 / ?N)" by simp
    also have "\<dots> = real (length ?ks) * (1 / ?N)" by (rule sum_list_const)
    also have "\<dots> = 1" using N by simp
    finally show ?thesis using res keys by blast
  next
    case False
    let ?num = "real (length links)"
    have num: "?num > 0" using False by simp
    let ?c = "(1 - DAMPING) / ?N"
    let ?linked = "fold (\<lambda>new_page model. AList.update new_page (DAMPING / ?num) model) links ?init"
    let ?body = "\<lambda>new_page model. bind_err (lookup model new_page)
                   (\<lambda>v. Inr (AList.update new_page (v + ?c) model))"
    have keys1: "map fst ?linked = ?ks"
      using keys_fold_update [OF sub0', of "\<lambda>_. DAMPING / ?num"] keys0 by simp
    have "set ?ks \<subseteq> fst ` set ?linked"
      using keys1 by (metis list.set_map subset_refl)
    from for_each_update [OF dk this, of "\<lambda>k v. v + ?c"] obtain m where
      m: "for_each ?body ?ks ?linked = Inr m" "map fst m = map fst ?linked"
         "\<forall>k. map_of m k = (if k \<in> set ?ks then map_option (\<lambda>v. v + ?c) (map_of ?linked k) else map_of ?linked k)"
      by blast
    have res: "transition_model corpus page damping_factor = Inr m"
      using links False m0 m(1) by (simp add: transition_model_def lookup_Some Let_def)
    have keys: "map fst m = ?ks" using m(2) keys1 by simp
    have val0: "map_of ?init k = Some 0" if "k \<in> set ?ks" for k
      using that map_of_fold_update [where f = "\<lambda>_. 0::real" and xs = ?ks and al = "[]" and k' = k]
      unfolding m0 by simp
    have val: "the (map_of m k) = (if k \<in> set links then DAMPING / ?num else 0) + ?c"
      if "k \<in> set ?ks" for k
      using that m(3) val0 [OF that] by (simp add: map_of_fold_update)
    have "map snd m = map (\<lambda>k. the (map_of m k)) ?ks"
      by (rule snd_via_keys [OF dk keys])
    also have "\<dots> = map (\<lambda>k. (if k \<in> set links then DAMPING / ?num else 0) + ?c) ?ks"
      using val by (intro map_cong) auto
    finally have "sum_list (map snd m) =
        (\<Sum>k\<leftarrow>?ks. (if k \<in> set links then DAMPING / ?num else 0) + ?c)" by simp
    also have "\<dots> = (\<Sum>k\<leftarrow>?ks. if k \<in> set links then DAMPING / ?num else 0) + (\<Sum>k\<leftarrow>?ks. ?c)"
      by (rule sum_list_addf)
    also have "(\<Sum>k\<leftarrow>?ks. if k \<in> set links then DAMPING / ?num else 0) = DAMPING"
    proof -
      have "(\<Sum>k\<leftarrow>?ks. if k \<in> set links then DAMPING / ?num else 0) =
              DAMPING / ?num * real (length (filter (\<lambda>k. k \<in> set links) ?ks))"
        by (rule sum_list_indicator)
      also have "\<dots> = DAMPING / ?num * ?num"
        by (simp only: filter_mem_length [OF dk dl sub])
      also have "\<dots> = DAMPING" using num by simp
      finally show ?thesis .
    qed
    also have "(\<Sum>k\<leftarrow>?ks. ?c) = 1 - DAMPING"
      using N sum_list_const [of ?c ?ks] by simp
    finally show ?thesis using res keys by simp
  qed
qed

text \<open>
  Claim C9: for a corpus whose link targets are all keys, a page of the corpus and any
  damping factor, \<open>transition_model\<close> returns a distribution over exactly the pages of the
  corpus, and its values sum to 1, whether the page has links or not.
\<close>

theorem transition_model_sums_to_one:
  assumes "wf_corpus corpus" and "page \<in> set (map fst corpus)"
  shows "\<exists>model. transition_model corpus page damping_factor = Inr model
           \<and> map fst model = map fst corpus \<and> sum_list (map snd model) = 1"
  using assms by (rule transition_model_dist)

theorem transition_model_sums_to_one_witness:
  "wf_corpus dangling2 \<and> ''A'' \<in> set (map fst dangling2) \<and> ''B'' \<in> set (map fst dangling2) \<and>
   (\<exists>model. transition_model dangling2 ''A'' 0.5 = Inr model
      \<and> map fst model = map fst dangling2 \<and> sum_list (map snd model) = 1) \<and>
   (\<exists>model. transition_model dangling2 ''B'' 0.5 = Inr model
      \<and> map fst model = map fst dangling2 \<and> sum_list (map snd model) = 1)"
proof -
  have wf: "wf_corpus dangling2" by (simp add: wf_corpus_def dangling2_def)
  have a: "''A'' \<in> set (map fst dangling2)" by (simp add: dangling2_def)
  have b: "''B'' \<in> set (map fst dangling2)" by (simp add: dangling2_def)
  show ?thesis
    using wf a b transition_model_sums_to_one [OF wf a, of "0.5"]
      transition_model_sums_to_one [OF wf b, of "0.5"] by blast
qed

text \<open>
  Claim C3: for a page with \<open>k > 0\<close> links and a damping factor \<open>d\<close> passed as the argument,
  a linked page gets \<open>d / k + (1 - d) / N\<close> and any other page \<open>(1 - d) / N\<close>. The code
  reads the constant \<open>DAMPING\<close> instead of its argument: with \<open>d = 0.5\<close> on two pages that
  link to each other the claim gives \<open>0.25\<close> and \<open>0.75\<close>, the code \<open>0.075\<close> and \<open>0.925\<close>.
\<close>

theorem transition_model_ignores_damping_factor:
  "transition_model ring2 ''A'' 0.5 = Inr [(''A'', 3 / 40), (''B'', 37 / 40)] \<and>
   (\<forall>corpus page d d'. transition_model corpus page d = transition_model corpus page d')"
proof -
  have "transition_model ring2 ''A'' 0.5 = Inr [(''A'', 3 / 40), (''B'', 37 / 40)]"
    by (simp add: transition_model_def ring2_def lookup_def DAMPING_def)
  moreover have "transition_model corpus page d = transition_model corpus page d'"
    for corpus page d d'
    by (simp add: transition_model_def)
  ultimately show ?thesis by blast
qed

section \<open>The inverted links of the iterative solver\<close>

lemma parents_sound_links:
  assumes "parents_sound corpus page_link" "lookup page_link q = Inr parents" "p \<in> set parents"
  shows "\<exists>links. lookup corpus p = Inr links \<and> q \<in> set links \<and> length links \<noteq> 0"
proof -
  from assms obtain links where "map_of corpus p = Some links" "q \<in> set links"
    unfolding parents_sound_def lookup_Inr_iff by blast
  then show ?thesis by (auto simp: lookup_Some)
qed

lemma parent_sum_no_dangling:
  assumes "\<forall>p \<in> set parents. \<exists>links. lookup corpus p = Inr links \<and> length links \<noteq> 0"
  shows "parent_sum corpus page_rank n parents = parent_sum_linked corpus page_rank parents"
  unfolding parent_sum_def parent_sum_linked_def
proof (rule for_each_cong_on)
  fix x s
  assume "x \<in> set parents"
  then obtain links where "lookup corpus x = Inr links" "length links \<noteq> 0"
    using assms by blast
  then show "bind_err (lookup corpus x) (\<lambda>links.
         let num_links = length links in
         if num_links \<noteq> 0
         then bind_err (lookup page_rank x) (\<lambda>r. Inr (s + r / real num_links))
         else bind_err (lookup page_rank x) (\<lambda>r. Inr (s + r / real n))) =
       bind_err (lookup corpus x) (\<lambda>links.
         bind_err (lookup page_rank x) (\<lambda>r. Inr (s + r / real (length links))))"
    by simp
qed

lemma lookup_update_other: "k \<noteq> k' \<Longrightarrow> lookup (AList.update k v al) k' = lookup al k'"
  by (simp add: lookup_def update_conv')

lemma parent_sum_update_other:
  assumes "d \<notin> set parents"
  shows "parent_sum corpus (AList.update d v page_rank) n parents = parent_sum corpus page_rank n parents"
  unfolding parent_sum_def
proof (rule for_each_cong_on)
  fix x s
  assume "x \<in> set parents"
  then have "d \<noteq> x" using assms by auto
  then have eq: "lookup (AList.update d v page_rank) x = lookup page_rank x"
    by (rule lookup_update_other)
  show "bind_err (lookup corpus x) (\<lambda>links.
         let num_links = length links in
         if num_links \<noteq> 0
         then bind_err (lookup (AList.update d v page_rank) x) (\<lambda>r. Inr (s + r / real num_links))
         else bind_err (lookup (AList.update d v page_rank) x) (\<lambda>r. Inr (s + r / real n))) =
       bind_err (lookup corpus x) (\<lambda>links.
         let num_links = length links in
         if num_links \<noteq> 0
         then bind_err (lookup page_rank x) (\<lambda>r. Inr (s + r / real num_links))
         else bind_err (lookup page_rank x) (\<lambda>r. Inr (s + r / real n)))"
    by (simp only: eq)
qed

text \<open>
  Claim C10: every page listed in \<open>page_link[q]\<close> has \<open>q\<close> among its links, so it has at
  least one link; the branch for a parent without links is never taken, and the rank of
  a page without links enters the new rank of no page.
\<close>

theorem dangling_branch_unreachable:
  assumes "build_page_link corpus = Inr page_link" and "lookup page_link q = Inr parents"
  shows "(\<forall>p \<in> set parents. \<exists>links. lookup corpus p = Inr links \<and> q \<in> set links \<and> length links \<noteq> 0)
       \<and> parent_sum corpus page_rank n parents = parent_sum_linked corpus page_rank parents
       \<and> (\<forall>d v. lookup corpus d = Inr [] \<longrightarrow>
            d \<notin> set parents \<and>
            parent_sum corpus (AList.update d v page_rank) n parents =
              parent_sum corpus page_rank n parents)"
proof -
  have sound: "parents_sound corpus page_link"
    using assms(1) by (rule build_page_link_sound)
  have 1: "\<forall>p \<in> set parents. \<exists>links. lookup corpus p = Inr links \<and> q \<in> set links \<and> length links \<noteq> 0"
    using parents_sound_links [OF sound assms(2)] by blast
  then have 2: "parent_sum corpus page_rank n parents = parent_sum_linked corpus page_rank parents"
    by (intro parent_sum_no_dangling) blast
  have 3: "d \<notin> set parents \<and>
      parent_sum corpus (AList.update d v page_rank) n parents = parent_sum corpus page_rank n parents"
    if "lookup corpus d = Inr []" for d v
  proof -
    have "d \<notin> set parents" using 1 that by auto
    then show ?thesis by (simp add: parent_sum_update_other)
  qed
  show ?thesis using 1 2 3 by blast
qed

lemma build_page_link_dangling2:
  "build_page_link dangling2 = Inr [(''A'', []), (''B'', [''A''])]"
  by (simp add: build_page_link_def dangling2_def lookup_def set_add_def)

theorem dangling_branch_unreachable_witness:
  "build_page_link dangling2 = Inr [(''A'', []), (''B'', [''A''])] \<and>
   lookup [(''A'', []), (''B'', [''A''])] ''B'' = Inr [''A''] \<and>
   (\<exists>links. lookup dangling2 ''A'' = Inr links \<and> ''B'' \<in> set links \<and> length links \<noteq> 0) \<and>
   parent_sum dangling2 [(''A'', 1 / 2), (''B'', 1 / 2)] 2 [''A''] =
     parent_sum_linked dangling2 [(''A'', 1 / 2), (''B'', 1 / 2)] [''A''] \<and>
   lookup dangling2 ''B'' = Inr [] \<and> ''B'' \<notin> set [''A''] \<and>
   parent_sum dangling2 (AList.update ''B'' 7 [(''A'', 1 / 2), (''B'', 1 / 2)]) 2 [''A''] =
     parent_sum dangling2 [(''A'', 1 / 2), (''B'', 1 / 2)] 2 [''A'']"
proof -
  have l: "lookup [(''A'', []), (''B'', [''A''])] ''B'' = Inr [''A'']"
    by (simp add: lookup_def)
  have b: "lookup dangling2 ''B'' = Inr []"
    by (simp add: lookup_def dangling2_def)
  show ?thesis
    using build_page_link_dangling2 l b
      dangling_branch_unreachable [OF build_page_link_dangling2 l,
        of "[(''A'', 1 / 2), (''B'', 1 / 2)]" 2]
    by auto
qed

section \<open>One sweep of the iterative solver\<close>

lemma in_keys_lookup: "k \<in> set (map fst al) \<Longrightarrow> \<exists>v. lookup al k = Inr v"
  using in_keys_map_of [of k al] by (auto simp: lookup_Some)

lemma parent_sum_total_from:
  assumes "\<forall>p \<in> set parents. (\<exists>links. lookup corpus p = Inr links) \<and> (\<exists>r. lookup page_rank p = Inr r)"
  shows "\<exists>s. for_each (\<lambda>parent_page s. bind_err (lookup corpus parent_page) (\<lambda>links.
         let num_links = length links in
         if num_links \<noteq> 0
         then bind_err (lookup page_rank parent_page) (\<lambda>r. Inr (s + r / real num_links))
         else bind_err (lookup page_rank parent_page) (\<lambda>r. Inr (s + r / real n))))
       parents s0 = Inr s"
  using assms
proof (induction parents arbitrary: s0)
  case Nil
  then show ?case by simp
next
  case (Cons p parents)
  from Cons.prems obtain links r where "lookup corpus p = Inr links" "lookup page_rank p = Inr r"
    by auto
  then show ?case using Cons.IH Cons.prems by (auto simp: Let_def)
qed

lemma parent_sum_total:
  assumes "\<forall>p \<in> set parents. (\<exists>links. lookup corpus p = Inr links) \<and> (\<exists>r. lookup page_rank p = Inr r)"
  shows "\<exists>s. parent_sum corpus page_rank n parents = Inr s"
  unfolding parent_sum_def using assms by (rule parent_sum_total_from)

lemma sweep_page_Inr:
  "sweep_page corpus page_link d n page (ok, r) = Inr (ok', r') \<longleftrightarrow>
     (\<exists>parents s old. lookup page_link page = Inr parents \<and> parent_sum corpus r n parents = Inr s
        \<and> lookup r page = Inr old
        \<and> ok' = (if \<bar>old - ((1 - d) / real n + d * s)\<bar> > 0.001 then False else ok)
        \<and> r' = AList.update page ((1 - d) / real n + d * s) r)"
  by (auto simp: sweep_page_def bind_err_Inr_iff Let_def)

lemma sweep_page_total:
  assumes "parents_sound corpus page_link" "map fst page_link = map fst corpus"
    "map fst r = map fst corpus" "page \<in> set (map fst corpus)"
  shows "\<exists>ok' r'. sweep_page corpus page_link d n page (ok, r) = Inr (ok', r')"
proof -
  obtain parents where parents: "lookup page_link page = Inr parents"
    using in_keys_lookup [of page page_link] assms(2,4) by auto
  have "\<forall>p \<in> set parents. (\<exists>links. lookup corpus p = Inr links) \<and> (\<exists>v. lookup r p = Inr v)"
  proof
    fix p assume "p \<in> set parents"
    then obtain links where links: "lookup corpus p = Inr links"
      using parents_sound_links [OF assms(1) parents] by blast
    then have "p \<in> set (map fst r)"
      using assms(3) by (auto simp: lookup_Inr_iff dest: map_of_in_keys)
    then have "\<exists>v. lookup r p = Inr v"
      by (rule in_keys_lookup)
    then show "(\<exists>links. lookup corpus p = Inr links) \<and> (\<exists>v. lookup r p = Inr v)"
      using links by blast
  qed
  then obtain s where s: "parent_sum corpus r n parents = Inr s"
    using parent_sum_total by blast
  obtain old where "lookup r page = Inr old"
    using in_keys_lookup [of page r] assms(3,4) by auto
  then show ?thesis using parents s by (simp add: sweep_page_Inr)
qed

lemma sweep_page_keys:
  assumes "sweep_page corpus page_link d n page (ok, r) = Inr (ok', r')"
  shows "map fst r' = map fst r"
  using assms by (auto simp: sweep_page_Inr lookup_Inr_iff update_keys_Some)

lemma sweep_page_other:
  assumes "sweep_page corpus page_link d n page (ok, r) = Inr (ok', r')" "p \<noteq> page"
  shows "map_of r' p = map_of r p"
  using assms by (auto simp: sweep_page_Inr update_conv')

lemma sweep_pages_keys:
  assumes "for_each (sweep_page corpus page_link d n) xs (ok, r) = Inr (ok', r')"
  shows "map fst r' = map fst r"
proof -
  have "map fst (snd (ok', r')) = map fst r"
  proof (rule for_each_invariant [where I = "\<lambda>t. map fst (snd t) = map fst r", OF assms])
    show "map fst (snd (ok, r)) = map fst r" by simp
  next
    fix x t t'
    assume "map fst (snd t) = map fst r" "sweep_page corpus page_link d n x t = Inr t'"
    then show "map fst (snd t') = map fst r"
      using sweep_page_keys [of corpus page_link d n x "fst t" "snd t" "fst t'" "snd t'"] by simp
  qed
  then show ?thesis by simp
qed

lemma sweep_pages_other:
  assumes "for_each (sweep_page corpus page_link d n) xs (ok, r) = Inr (ok', r')" "p \<notin> set xs"
  shows "map_of r' p = map_of r p"
proof -
  have "map_of (snd (ok', r')) p = map_of r p"
  proof (rule for_each_invariant [where I = "\<lambda>t. map_of (snd t) p = map_of r p", OF assms(1)])
    show "map_of (snd (ok, r)) p = map_of r p" by simp
  next
    fix x t t'
    assume "x \<in> set xs" "map_of (snd t) p = map_of r p" "sweep_page corpus page_link d n x t = Inr t'"
    then show "map_of (snd t') p = map_of r p"
      using sweep_page_other [of corpus page_link d n x "fst t" "snd t" "fst t'" "snd t'" p] assms(2)
      by auto
  qed
  then show ?thesis by simp
qed

lemma sweep_pages_total:
  assumes "parents_sound corpus page_link" "map fst page_link = map fst corpus"
    "map fst r = map fst corpus" "set xs \<subseteq> set (map fst corpus)"
  shows "\<exists>ok' r'. for_each (sweep_page corpus page_link d n) xs (ok, r) = Inr (ok', r')"
  using assms(3,4)
proof (induction xs arbitrary: ok r)
  case Nil
  then show ?case by simp
next
  case (Cons x xs)
  obtain ok1 r1 where step: "sweep_page corpus page_link d n x (ok, r) = Inr (ok1, r1)"
    using sweep_page_total [OF assms(1,2) Cons.prems(1)] Cons.prems(2) by force
  have "map fst r1 = map fst corpus"
    using sweep_page_keys [OF step] Cons.prems(1) by simp
  then obtain ok' r' where "for_each (sweep_page corpus page_link d n) xs (ok1, r1) = Inr (ok', r')"
    using Cons.IH Cons.prems(2) by force
  then show ?case using step by simp
qed

text \<open>
  Claim C2, as amended: a sweep goes through the pages in the order of the corpus and
  writes \<open>page_rank\<close> in place. The new rank of a page \<open>q\<close> is computed from the dictionary
  \<open>mid\<close> in which the pages before \<open>q\<close> already hold the ranks of this sweep and all other
  pages still hold the ranks of the previous sweep.
\<close>

theorem sweep_in_place:
  assumes "distinct (map fst corpus)" and "build_page_link corpus = Inr page_link"
    and "map fst page_rank = map fst corpus" and "map fst corpus = pre @ q # post"
  shows "\<exists>ok page_rank' ok1 mid parents s.
           sweep corpus page_link d n page_rank = Inr (ok, page_rank')
         \<and> for_each (sweep_page corpus page_link d n) pre (True, page_rank) = Inr (ok1, mid)
         \<and> (\<forall>p. map_of mid p = (if p \<in> set pre then map_of page_rank' p else map_of page_rank p))
         \<and> lookup page_link q = Inr parents
         \<and> parent_sum corpus mid n parents = Inr s
         \<and> lookup page_rank' q = Inr ((1 - d) / real n + d * s)"
proof -
  let ?body = "sweep_page corpus page_link d n"
  have sound: "parents_sound corpus page_link"
    using assms(2) by (rule build_page_link_sound)
  have keys: "map fst page_link = map fst corpus"
    using assms(2,1) by (rule build_page_link_keys)
  have dist: "distinct (pre @ q # post)" using assms(1,4) by simp
  obtain ok1 mid where pre: "for_each ?body pre (True, page_rank) = Inr (ok1, mid)"
    using sweep_pages_total [OF sound keys assms(3), of pre d n True] assms(4) by auto
  have kmid: "map fst mid = map fst corpus"
    using sweep_pages_keys [OF pre] assms(3) by simp
  obtain ok2 r2 where step: "?body q (ok1, mid) = Inr (ok2, r2)"
    using sweep_page_total [OF sound keys kmid, of q d n ok1] assms(4) by auto
  then obtain parents s where parents: "lookup page_link q = Inr parents"
    and s: "parent_sum corpus mid n parents = Inr s"
    and r2: "r2 = AList.update q ((1 - d) / real n + d * s) mid"
    by (auto simp: sweep_page_Inr)
  have k2: "map fst r2 = map fst corpus"
    using sweep_page_keys [OF step] kmid by simp
  obtain ok r' where post: "for_each ?body post (ok2, r2) = Inr (ok, r')"
    using sweep_pages_total [OF sound keys k2, of post d n ok2] assms(4) by auto
  have run: "sweep corpus page_link d n page_rank = Inr (ok, r')"
    unfolding sweep_def assms(4) using pre step post by (simp add: for_each_append)
  have later: "map_of r' p = map_of r2 p" if "p \<notin> set post" for p
    using sweep_pages_other [OF post that] .
  have earlier: "map_of mid p = map_of page_rank p" if "p \<notin> set pre" for p
    using sweep_pages_other [OF pre that] .
  have "map_of mid p = (if p \<in> set pre then map_of r' p else map_of page_rank p)" for p
  proof (cases "p \<in> set pre")
    case True
    then have "p \<notin> set post" "p \<noteq> q" using dist by auto
    then show ?thesis using True later [of p] r2 by (simp add: update_conv')
  next
    case False
    then show ?thesis using earlier by simp
  qed
  moreover have "lookup r' q = Inr ((1 - d) / real n + d * s)"
  proof -
    have "q \<notin> set post" using dist by auto
    then show ?thesis using later [of q] r2 by (simp add: lookup_def update_conv')
  qed
  ultimately show ?thesis using run pre parents s by blast
qed

section \<open>The iterative solver on a page without links\<close>

lemmas sweep_eval = sweep_def sweep_page_def parent_sum_def lookup_def Let_def
lemmas sweep_sync_eval = sweep_sync_def sweep_page_sync_def parent_sum_def lookup_def Let_def

lemma sweep_dangling2_1:
  "sweep dangling2 [(''A'', []), (''B'', [''A''])] (17 / 20) 2 [(''A'', 1 / 2), (''B'', 1 / 2)] =
     Inr (False, [(''A'', 3 / 40), (''B'', 111 / 800)])"
  by (simp add: sweep_eval dangling2_def)

lemma sweep_dangling2_2:
  "sweep dangling2 [(''A'', []), (''B'', [''A''])] (17 / 20) 2 [(''A'', 3 / 40), (''B'', 111 / 800)] =
     Inr (True, [(''A'', 3 / 40), (''B'', 111 / 800)])"
  by (simp add: sweep_eval dangling2_def)

lemma sweep_sync_dangling2_1:
  "sweep_sync dangling2 [(''A'', []), (''B'', [''A''])] (17 / 20) 2 [(''A'', 1 / 2), (''B'', 1 / 2)] =
     Inr (False, [(''A'', 3 / 40), (''B'', 1 / 2)])"
  by (simp add: sweep_sync_eval dangling2_def)

lemma iterate_loop_dangling2:
  "iterate_loop dangling2 [(''A'', []), (''B'', [''A''])] (17 / 20) 2 [(''A'', 1 / 2), (''B'', 1 / 2)] =
     Some (Inr [(''A'', 3 / 40), (''B'', 111 / 800)])"
proof -
  have "iterate_loop dangling2 [(''A'', []), (''B'', [''A''])] (17 / 20) 2 [(''A'', 3 / 40), (''B'', 111 / 800)] =
     Some (Inr [(''A'', 3 / 40), (''B'', 111 / 800)])"
    by (subst iterate_loop.simps) (simp add: sweep_dangling2_2)
  then show ?thesis
    by (subst iterate_loop.simps) (simp add: sweep_dangling2_1)
qed

lemma iterate_pagerank_dangling2:
  "iterate_pagerank dangling2 (17 / 20) = Some (Inr [(''A'', 3 / 40), (''B'', 111 / 800)])"
proof -
  have "fold (\<lambda>page page_rank. AList.update page (1 / real (length dangling2)) page_rank)
          (map fst dangling2) [] = [(''A'', 1 / 2), (''B'', 1 / 2)]"
    by (simp add: dangling2_def)
  moreover have "length dangling2 = 2" by (simp add: dangling2_def)
  ultimately show ?thesis
    unfolding iterate_pagerank_def Let_def
    by (simp add: build_page_link_dangling2 iterate_loop_dangling2)
qed

text \<open>
  Claim C6: both rank vectors sum to 1 within tolerance. The iterative solver fails it on
  a corpus with a page without links: on \<open>A \<rightarrow> B\<close> it stops after two sweeps with the
  ranks \<open>0.075\<close> and \<open>0.13875\<close>, whose sum is \<open>0.21375\<close>.
\<close>

theorem iterate_pagerank_sum_below_one:
  "iterate_pagerank dangling2 (17 / 20) = Some (Inr [(''A'', 3 / 40), (''B'', 111 / 800)]) \<and>
   sum_list (map snd [(''A'', 3 / 40 :: real), (''B'', 111 / 800)]) = 171 / 800 \<and>
   \<bar>171 / 800 - 1\<bar> > (1 / 1000 :: real)"
  using iterate_pagerank_dangling2 by simp

text \<open>
  Claim C1: a sweep gives page \<open>q\<close> the rank \<open>(1 - d) / N + d * s\<close>, where \<open>s\<close> adds
  \<open>rank[p] / outDegree(p)\<close> for the pages \<open>p\<close> that link to \<open>q\<close> and \<open>rank[p] / N\<close> for every
  page \<open>p\<close> without links. The code leaves the second part out: on \<open>A \<rightarrow> B\<close> with
  \<open>d = 0.85\<close> the first sweep gives \<open>A\<close> the rank \<open>0.075\<close>, the claim gives \<open>0.2875\<close>.
\<close>

theorem sweep_drops_dangling_mass:
  "build_page_link dangling2 = Inr [(''A'', []), (''B'', [''A''])] \<and>
   sweep dangling2 [(''A'', []), (''B'', [''A''])] (17 / 20) 2 [(''A'', 1 / 2), (''B'', 1 / 2)] =
     Inr (False, [(''A'', 3 / 40), (''B'', 111 / 800)]) \<and>
   spec_new_rank dangling2 (17 / 20) (\<lambda>p. 1 / 2) ''A'' = 23 / 80"
  by (simp add: build_page_link_dangling2 sweep_dangling2_1)
     (simp add: spec_new_rank_def dangling2_def links_to_def out_degree_def)

section \<open>The order of the pages in a sweep\<close>

theorem sweep_in_place_witness:
  "distinct (map fst dangling2) \<and>
   build_page_link dangling2 = Inr [(''A'', []), (''B'', [''A''])] \<and>
   map fst [(''A'', 1 / 2 :: real), (''B'', 1 / 2)] = map fst dangling2 \<and>
   map fst dangling2 = [''A''] @ ''B'' # [] \<and>
   (\<exists>ok page_rank' ok1 mid parents s.
           sweep dangling2 [(''A'', []), (''B'', [''A''])] (17 / 20) 2 [(''A'', 1 / 2), (''B'', 1 / 2)]
             = Inr (ok, page_rank')
         \<and> for_each (sweep_page dangling2 [(''A'', []), (''B'', [''A''])] (17 / 20) 2) [''A'']
               (True, [(''A'', 1 / 2), (''B'', 1 / 2)]) = Inr (ok1, mid)
         \<and> (\<forall>p. map_of mid p = (if p \<in> set [''A''] then map_of page_rank' p
                                  else map_of [(''A'', 1 / 2), (''B'', 1 / 2)] p))
         \<and> lookup [(''A'', []), (''B'', [''A''])] ''B'' = Inr parents
         \<and> parent_sum dangling2 mid 2 parents = Inr s
         \<and> lookup page_rank' ''B'' = Inr ((1 - 17 / 20) / real 2 + 17 / 20 * s))"
proof -
  have 1: "distinct (map fst dangling2)" by (simp add: dangling2_def)
  have 3: "map fst [(''A'', 1 / 2 :: real), (''B'', 1 / 2)] = map fst dangling2"
    by (simp add: dangling2_def)
  have 4: "map fst dangling2 = [''A''] @ ''B'' # []" by (simp add: dangling2_def)
  show ?thesis
    using 1 3 4 build_page_link_dangling2
      sweep_in_place [OF 1 build_page_link_dangling2 3 4, of "17 / 20" 2]
    by blast
qed

lemma build_page_link_tri: "build_page_link tri = Inr tri_link"
  by (simp add: build_page_link_def tri_def lookup_def set_add_def)

lemma build_page_link_tri_rev: "build_page_link tri_rev = Inr tri_rev_link"
  by (simp add: build_page_link_def tri_rev_def lookup_def set_add_def)

lemma iterate_loop_tri:
  "iterate_loop tri tri_link (1 / 10) 3 [(''A'', 1 / 3), (''B'', 1 / 3), (''C'', 1 / 3)] =
     Some (Inr [(''A'', 109091 / 300000), (''B'', 1009091 / 3000000), (''C'', 3 / 10)])"
proof -
  have 1: "sweep tri tri_link (1 / 10) 3 [(''A'', 1 / 3), (''B'', 1 / 3), (''C'', 1 / 3)] =
      Inr (False, [(''A'', 11 / 30), (''B'', 101 / 300), (''C'', 3 / 10)])"
    by (simp add: sweep_eval tri_def)
  have 2: "sweep tri tri_link (1 / 10) 3 [(''A'', 11 / 30), (''B'', 101 / 300), (''C'', 3 / 10)] =
      Inr (False, [(''A'', 1091 / 3000), (''B'', 10091 / 30000), (''C'', 3 / 10)])"
    by (simp add: sweep_eval tri_def)
  have 3: "sweep tri tri_link (1 / 10) 3 [(''A'', 1091 / 3000), (''B'', 10091 / 30000), (''C'', 3 / 10)] =
      Inr (True, [(''A'', 109091 / 300000), (''B'', 1009091 / 3000000), (''C'', 3 / 10)])"
    by (simp add: sweep_eval tri_def)
  show ?thesis
    apply (subst iterate_loop.simps, simp add: 1)
    apply (subst iterate_loop.simps, simp add: 2)
    apply (subst iterate_loop.simps, simp add: 3)
    done
qed

lemma iterate_loop_tri_rev:
  "iterate_loop tri_rev tri_rev_link (1 / 10) 3 [(''C'', 1 / 3), (''B'', 1 / 3), (''A'', 1 / 3)] =
     Some (Inr [(''C'', 3 / 10), (''B'', 100909 / 300000), (''A'', 1090909 / 3000000)])"
proof -
  have 1: "sweep tri_rev tri_rev_link (1 / 10) 3 [(''C'', 1 / 3), (''B'', 1 / 3), (''A'', 1 / 3)] =
      Inr (False, [(''C'', 3 / 10), (''B'', 1 / 3), (''A'', 109 / 300)])"
    by (simp add: sweep_eval tri_rev_def)
  have 2: "sweep tri_rev tri_rev_link (1 / 10) 3 [(''C'', 3 / 10), (''B'', 1 / 3), (''A'', 109 / 300)] =
      Inr (False, [(''C'', 3 / 10), (''B'', 1009 / 3000), (''A'', 10909 / 30000)])"
    by (simp add: sweep_eval tri_rev_def)
  have 3: "sweep tri_rev tri_rev_link (1 / 10) 3 [(''C'', 3 / 10), (''B'', 1009 / 3000), (''A'', 10909 / 30000)] =
      Inr (True, [(''C'', 3 / 10), (''B'', 100909 / 300000), (''A'', 1090909 / 3000000)])"
    by (simp add: sweep_eval tri_rev_def)
  show ?thesis
    apply (subst iterate_loop.simps, simp add: 1)
    apply (subst iterate_loop.simps, simp add: 2)
    apply (subst iterate_loop.simps, simp add: 3)
    done
qed

lemma iterate_loop_sync_tri:
  "iterate_loop_sync tri tri_link (1 / 10) 3 [(''A'', 1 / 3), (''B'', 1 / 3), (''C'', 1 / 3)] =
     Some (Inr [(''A'', 1091 / 3000), (''B'', 1009 / 3000), (''C'', 3 / 10)])"
proof -
  have 1: "sweep_sync tri tri_link (1 / 10) 3 [(''A'', 1 / 3), (''B'', 1 / 3), (''C'', 1 / 3)] =
      Inr (False, [(''A'', 11 / 30), (''B'', 1 / 3), (''C'', 3 / 10)])"
    by (simp add: sweep_sync_eval tri_def)
  have 2: "sweep_sync tri tri_link (1 / 10) 3 [(''A'', 11 / 30), (''B'', 1 / 3), (''C'', 3 / 10)] =
      Inr (False, [(''A'', 109 / 300), (''B'', 101 / 300), (''C'', 3 / 10)])"
    by (simp add: sweep_sync_eval tri_def)
  have 3: "sweep_sync tri tri_link (1 / 10) 3 [(''A'', 109 / 300), (''B'', 101 / 300), (''C'', 3 / 10)] =
      Inr (True, [(''A'', 1091 / 3000), (''B'', 1009 / 3000), (''C'', 3 / 10)])"
    by (simp add: sweep_sync_eval tri_def)
  show ?thesis
    apply (subst iterate_loop_sync.simps, simp add: 1)
    apply (subst iterate_loop_sync.simps, simp add: 2)
    apply (subst iterate_loop_sync.simps, simp add: 3)
    done
qed

lemma init_rank_tri:
  "fold (\<lambda>page page_rank. AList.update page (1 / real (length tri)) page_rank) (map fst tri) [] =
     [(''A'', 1 / 3), (''B'', 1 / 3), (''C'', 1 / 3)]" "length tri = 3"
  by (simp_all add: tri_def)

lemma init_rank_tri_rev:
  "fold (\<lambda>page page_rank. AList.update page (1 / real (length tri_rev)) page_rank) (map fst tri_rev) [] =
     [(''C'', 1 / 3), (''B'', 1 / 3), (''A'', 1 / 3)]" "length tri_rev = 3"
  by (simp_all add: tri_rev_def)

text \<open>
  Claim C2: every sweep reads one frozen snapshot, so the result does not depend on the
  order of the pages and the solver equals the double-buffered one. On \<open>A \<rightarrow> B\<close> the first
  sweep already gives \<open>B\<close> the rank \<open>0.13875\<close>, computed from the new rank of \<open>A\<close>, where the
  double-buffered sweep gives \<open>0.5\<close>. On three pages with a cycle and \<open>d = 0.1\<close> the solver,
  the solver on the same dictionary in reverse order and the double-buffered solver return
  three different ranks for \<open>A\<close>.
\<close>

theorem sweep_not_synchronous:
  "sweep dangling2 [(''A'', []), (''B'', [''A''])] (17 / 20) 2 [(''A'', 1 / 2), (''B'', 1 / 2)] =
     Inr (False, [(''A'', 3 / 40), (''B'', 111 / 800)]) \<and>
   sweep_sync dangling2 [(''A'', []), (''B'', [''A''])] (17 / 20) 2 [(''A'', 1 / 2), (''B'', 1 / 2)] =
     Inr (False, [(''A'', 3 / 40), (''B'', 1 / 2)]) \<and>
   iterate_pagerank tri (1 / 10) =
     Some (Inr [(''A'', 109091 / 300000), (''B'', 1009091 / 3000000), (''C'', 3 / 10)]) \<and>
   iterate_pagerank tri_rev (1 / 10) =
     Some (Inr [(''C'', 3 / 10), (''B'', 100909 / 300000), (''A'', 1090909 / 3000000)]) \<and>
   iterate_pagerank_sync tri (1 / 10) =
     Some (Inr [(''A'', 1091 / 3000), (''B'', 1009 / 3000), (''C'', 3 / 10)])"
proof -
  have "iterate_pagerank tri (1 / 10) =
     Some (Inr [(''A'', 109091 / 300000), (''B'', 1009091 / 3000000), (''C'', 3 / 10)])"
    using init_rank_tri unfolding iterate_pagerank_def Let_def
    by (simp add: build_page_link_tri iterate_loop_tri)
  moreover have "iterate_pagerank tri_rev (1 / 10) =
     Some (Inr [(''C'', 3 / 10), (''B'', 100909 / 300000), (''A'', 1090909 / 3000000)])"
    using init_rank_tri_rev unfolding iterate_pagerank_def Let_def
    by (simp add: build_page_link_tri_rev iterate_loop_tri_rev)
  moreover have "iterate_pagerank_sync tri (1 / 10) =
     Some (Inr [(''A'', 1091 / 3000), (''B'', 1009 / 3000), (''C'', 3 / 10)])"
    using init_rank_tri unfolding iterate_pagerank_sync_def Let_def
    by (simp add: build_page_link_tri iterate_loop_sync_tri)
  ultimately show ?thesis
    using sweep_dangling2_1 sweep_sync_dangling2_1 by simp
qed

section \<open>The sampling estimate\<close>

lemma fold_append_each: "fold (\<lambda>page pageList. pageList @ [page]) ks acc = acc @ ks"
  by (induction ks arbitrary: acc) auto

lemma random_choice_member:
  assumes "xs \<noteq> []"
  shows "\<exists>x. random_choice xs r = Inr x \<and> x \<in> set xs"
  using assms by (simp add: random_choice_def)

lemma sum_after_update:
  fixes v :: real
  assumes "distinct (map fst al)" "map_of al k = Some c"
  shows "sum_list (map snd (AList.update k v al)) = sum_list (map snd al) - c + v"
  using assms
proof (induction al)
  case Nil
  then show ?case by simp
next
  case (Cons x al)
  obtain k' c' where x: "x = (k', c')" by (cases x)
  show ?case
  proof (cases "k' = k")
    case True
    then show ?thesis using Cons.prems x by simp
  next
    case False
    then show ?thesis using Cons x by simp
  qed
qed

lemma sum_list_divide:
  fixes f :: "'a \<Rightarrow> real"
  shows "(\<Sum>k\<leftarrow>ks. f k / c) = (\<Sum>k\<leftarrow>ks. f k) / c"
  by (induction ks) (auto simp: add_divide_distrib)

lemma weights_total:
  assumes "set ks \<subseteq> set (map fst model)"
  shows "\<exists>prob. for_each (\<lambda>page2 prob. bind_err (lookup model page2) (\<lambda>w. Inr (prob @ [w])))
                  ks acc = Inr prob"
  using assms
proof (induction ks arbitrary: acc)
  case Nil
  then show ?case by simp
next
  case (Cons k ks)
  obtain w where "lookup model k = Inr w"
    using in_keys_lookup [of k model] Cons.prems by auto
  then show ?case using Cons by simp
qed

lemma sample_step_counts:
  assumes "wf_corpus corpus" "page \<in> set (map fst corpus)" "map fst page_rank = map fst corpus"
  shows "\<exists>page' page_rank'.
           sample_step corpus d (map fst corpus) rnd i (page, page_rank) = Inr (page', page_rank')
         \<and> page' \<in> set (map fst corpus) \<and> map fst page_rank' = map fst corpus
         \<and> sum_list (map snd page_rank') = sum_list (map snd page_rank) + 1"
proof -
  let ?ks = "map fst corpus"
  have dk: "distinct ?ks" using assms(1) by (simp add: wf_corpus_def)
  have ne: "?ks \<noteq> []" using assms(2) by auto
  obtain model where model: "transition_model corpus page d = Inr model" "map fst model = ?ks"
    using transition_model_dist [OF assms(1,2)] by blast
  obtain prob where prob: "for_each (\<lambda>page2 prob. bind_err (lookup model page2)
      (\<lambda>w. Inr (prob @ [w]))) ?ks [] = Inr prob"
    using weights_total [of ?ks model "[]"] model(2) by auto
  obtain page' where page': "random_choices ?ks prob (rnd (Suc i)) = Inr page'" "page' \<in> set ?ks"
    using random_choice_member [OF ne] unfolding random_choices_def by blast
  obtain c where c: "map_of page_rank page' = Some c"
    using in_keys_map_of [of page' page_rank] page'(2) assms(3) by auto
  let ?pr = "AList.update page' (c + 1) page_rank"
  have run: "sample_step corpus d ?ks rnd i (page, page_rank) = Inr (page', ?pr)"
    unfolding sample_step_def using model(1) prob page'(1) c by (simp add: lookup_Some)
  have keys: "map fst ?pr = ?ks"
    using update_keys_Some [OF c] assms(3) by simp
  have "distinct (map fst page_rank)" by (simp only: assms(3) dk)
  then have "sum_list (map snd ?pr) = sum_list (map snd page_rank) - c + (c + 1)"
    using c by (rule sum_after_update)
  then have "sum_list (map snd ?pr) = sum_list (map snd page_rank) + 1" by simp
  then show ?thesis using run page'(2) keys by blast
qed

lemma sample_loop_counts:
  assumes "wf_corpus corpus" "page \<in> set (map fst corpus)" "map fst page_rank = map fst corpus"
  shows "\<exists>page' page_rank'.
           for_each (sample_step corpus d (map fst corpus) rnd) steps (page, page_rank) =
             Inr (page', page_rank')
         \<and> map fst page_rank' = map fst corpus
         \<and> sum_list (map snd page_rank') = sum_list (map snd page_rank) + real (length steps)"
  using assms(2,3)
proof (induction steps arbitrary: page page_rank)
  case Nil
  then show ?case by simp
next
  case (Cons i steps)
  obtain page1 pr1 where step:
    "sample_step corpus d (map fst corpus) rnd i (page, page_rank) = Inr (page1, pr1)"
    "page1 \<in> set (map fst corpus)" "map fst pr1 = map fst corpus"
    "sum_list (map snd pr1) = sum_list (map snd page_rank) + 1"
    using sample_step_counts [OF assms(1) Cons.prems] by blast
  obtain page' pr' where rest:
    "for_each (sample_step corpus d (map fst corpus) rnd) steps (page1, pr1) = Inr (page', pr')"
    "map fst pr' = map fst corpus"
    "sum_list (map snd pr') = sum_list (map snd pr1) + real (length steps)"
    using Cons.IH [OF step(2,3)] by blast
  have "for_each (sample_step corpus d (map fst corpus) rnd) (i # steps) (page, page_rank) =
          Inr (page', pr')"
    using step(1) rest(1) by simp
  moreover have "sum_list (map snd pr') = sum_list (map snd page_rank) + real (length (i # steps))"
    using step(4) rest(3) by simp
  ultimately show ?case using rest(2) by blast
qed

lemma divide_all_by_n:
  assumes "n > 0" "distinct (map fst al)"
  shows "\<exists>al'. for_each (\<lambda>page page_rank. bind_err (lookup page_rank page) (\<lambda>c.
               bind_err (py_div c (real n)) (\<lambda>v. Inr (AList.update page v page_rank))))
             (map fst al) al = Inr al'
           \<and> map fst al' = map fst al
           \<and> sum_list (map snd al') = sum_list (map snd al) / real n"
proof -
  let ?ks = "map fst al"
  have body: "(\<lambda>page page_rank. bind_err (lookup page_rank page) (\<lambda>c.
               bind_err (py_div c (real n)) (\<lambda>v. Inr (AList.update page v page_rank)))) =
        (\<lambda>k m. bind_err (lookup m k) (\<lambda>v. Inr (AList.update k (v / real n) m)))"
    using assms(1) by (simp add: py_div_def)
  have "set ?ks \<subseteq> fst ` set al" by simp
  from for_each_update [OF assms(2) this, of "\<lambda>k v. v / real n"] obtain al' where
    al': "for_each (\<lambda>k m. bind_err (lookup m k) (\<lambda>v. Inr (AList.update k (v / real n) m))) ?ks al
            = Inr al'"
      "map fst al' = ?ks"
      "\<forall>k. map_of al' k = (if k \<in> set ?ks then map_option (\<lambda>v. v / real n) (map_of al k)
                             else map_of al k)"
    by blast
  have val: "the (map_of al' k) = the (map_of al k) / real n" if k: "k \<in> set ?ks" for k
  proof -
    obtain v where "map_of al k = Some v" using in_keys_map_of [OF k] by blast
    then show ?thesis using al'(3) k by simp
  qed
  have "map snd al' = map (\<lambda>k. the (map_of al' k)) ?ks"
    by (rule snd_via_keys [OF assms(2) al'(2)])
  also have "\<dots> = map (\<lambda>k. the (map_of al k) / real n) ?ks"
    using val by (intro map_cong) auto
  finally have "sum_list (map snd al') = (\<Sum>k\<leftarrow>?ks. the (map_of al k) / real n)" by simp
  also have "\<dots> = (\<Sum>k\<leftarrow>?ks. the (map_of al k)) / real n"
    by (rule sum_list_divide)
  also have "(\<Sum>k\<leftarrow>?ks. the (map_of al k)) = sum_list (map snd al)"
    by (simp only: snd_via_keys [OF assms(2) refl, symmetric])
  finally show ?thesis using al'(1,2) unfolding body by blast
qed

text \<open>
  The sampling half of claim C6: with at least one sample on a non-empty corpus, whatever
  the random source draws, the estimate is a distribution over the pages of the corpus
  whose values sum to 1.
\<close>

lemma sample_pagerank_sums_to_one:
  assumes "wf_corpus corpus" "corpus \<noteq> []" "n > 0"
  shows "\<exists>page_rank. sample_pagerank corpus d n rnd = Inr page_rank
           \<and> map fst page_rank = map fst corpus \<and> sum_list (map snd page_rank) = 1"
proof -
  let ?ks = "map fst corpus"
  have dk: "distinct ?ks" using assms(1) by (simp add: wf_corpus_def)
  let ?zero = "map (\<lambda>k. (k, 0::real)) ?ks"
  have zero: "fold (\<lambda>page page_rank. AList.update page 0 page_rank) ?ks [] = ?zero"
    using fold_update_empty [OF dk, of "\<lambda>_. 0::real"] by simp
  have list: "fold (\<lambda>page pageList. pageList @ [page]) ?ks [] = ?ks"
    by (simp add: fold_append_each)
  have kz: "map fst ?zero = ?ks" by (simp add: comp_def)
  have sz: "sum_list (map snd ?zero) = 0" by (simp add: comp_def)
  obtain item where item: "random_choice corpus (rnd 0) = Inr item" "item \<in> set corpus"
    using random_choice_member [OF assms(2)] by blast
  have page: "fst item \<in> set ?ks" using item(2) by simp
  obtain c where c: "map_of ?zero (fst item) = Some c"
    using in_keys_map_of [of "fst item" ?zero] page kz by auto
  let ?one = "AList.update (fst item) (c + 1) ?zero"
  have k1: "map fst ?one = ?ks" using update_keys_Some [OF c] kz by simp
  have c0: "c = 0" using c by (auto dest: map_of_SomeD)
  have dz: "distinct (map fst ?zero)" by (simp only: kz dk)
  have "sum_list (map snd ?one) = sum_list (map snd ?zero) - c + (c + 1)"
    by (rule sum_after_update [OF dz c])
  then have s1: "sum_list (map snd ?one) = 1"
    unfolding sz by simp
  obtain page' pr where loop:
    "for_each (sample_step corpus d ?ks rnd) [0..<n - 1] (fst item, ?one) = Inr (page', pr)"
    "map fst pr = ?ks"
    "sum_list (map snd pr) = sum_list (map snd ?one) + real (length [0..<n - 1])"
    using sample_loop_counts [OF assms(1) page k1] by blast
  have total: "sum_list (map snd pr) = real n"
    using loop(3) s1 assms(3) by simp
  have "distinct (map fst pr)" using loop(2) dk by simp
  from divide_all_by_n [OF assms(3) this] obtain final where final:
    "for_each (\<lambda>page page_rank. bind_err (lookup page_rank page) (\<lambda>c.
               bind_err (py_div c (real n)) (\<lambda>v. Inr (AList.update page v page_rank))))
             (map fst pr) pr = Inr final"
    "map fst final = map fst pr" "sum_list (map snd final) = sum_list (map snd pr) / real n"
    by blast
  have "sample_pagerank corpus d n rnd = Inr final"
    unfolding sample_pagerank_def Let_def zero list
    using item(1) c loop(1) final(1) by (simp add: lookup_Some)
  moreover have "sum_list (map snd final) = 1"
    using final(3) total assms(3) by simp
  ultimately show ?thesis using final(2) loop(2) by simp
qed

text \<open>The call of \<open>main\<close>: \<open>n = SAMPLES\<close>.\<close>

lemma sample_pagerank_main:
  assumes "wf_corpus corpus" "corpus \<noteq> []"
  shows "\<exists>page_rank. sample_pagerank corpus DAMPING SAMPLES rnd = Inr page_rank
           \<and> map fst page_rank = map fst corpus \<and> sum_list (map snd page_rank) = 1"
proof -
  have "SAMPLES > 0" by (simp add: SAMPLES_def)
  then show ?thesis using assms by (intro sample_pagerank_sums_to_one)
qed

section \<open>The joint probability of a world\<close>

lemma fold_times_prod_list:
  fixes a :: real
  shows "fold (\<lambda>(p, row) acc. acc * f p row) people a = a * prod_list (map (\<lambda>(p, row). f p row) people)"
  by (induction people arbitrary: a) (auto simp: algebra_simps)

lemma person_prob_factors:
  assumes "one_gene \<inter> two_genes = {}" "(mother row = None) = (father row = None)"
  shows "person_prob one_gene two_genes have_trait p row =
           gene_factor one_gene two_genes p row * trait_factor one_gene two_genes have_trait p"
proof (cases "mother row")
  case None
  then have "father row = None" using assms(2) by simp
  then show ?thesis
    using None assms(1)
    by (auto simp: person_prob_def gene_factor_def trait_factor_def assigned_count_def Let_def)
next
  case (Some m)
  then obtain f where f: "father row = Some f" using assms(2) by (cases "father row") auto
  have m1: "m \<in> one_gene \<Longrightarrow> m \<notin> two_genes" and f1: "f \<in> one_gene \<Longrightarrow> f \<notin> two_genes"
    and p1: "p \<in> one_gene \<Longrightarrow> p \<notin> two_genes"
    using assms(1) by auto
  show ?thesis
    using Some f m1 f1 p1
    by (auto simp: person_prob_def gene_factor_def trait_factor_def assigned_count_def Let_def
        opt_in_def pass_def child_prob_def algebra_simps)
qed

text \<open>
  Claim C4: for a population in which both parents are recorded or neither is, and a
  world given by disjoint sets \<open>one_gene\<close> and \<open>two_genes\<close> and a set \<open>have_trait\<close>,
  \<open>joint_probability\<close> is the product over the persons of the gene factor (the prior of
  the assigned gene count without parents, \<open>child_prob\<close> of the parents' \<open>pass\<close> values
  with parents) and the trait factor (the probability of the trait membership given the
  assigned gene count).
\<close>

theorem joint_probability_product:
  assumes "wf_people people" and "one_gene \<inter> two_genes = {}"
  shows "joint_probability people one_gene two_genes have_trait =
           (\<Prod>(p, row) \<leftarrow> people.
              gene_factor one_gene two_genes p row * trait_factor one_gene two_genes have_trait p)"
proof -
  have "joint_probability people one_gene two_genes have_trait =
          (\<Prod>(p, row) \<leftarrow> people. person_prob one_gene two_genes have_trait p row)"
    unfolding joint_probability_def by (simp add: fold_times_prod_list)
  also have "map (\<lambda>(p, row). person_prob one_gene two_genes have_trait p row) people =
      map (\<lambda>(p, row). gene_factor one_gene two_genes p row *
              trait_factor one_gene two_genes have_trait p) people"
  proof (rule map_cong [OF refl])
    fix x assume x: "x \<in> set people"
    obtain p row where pr: "x = (p, row)" by (cases x)
    have "(mother row = None) = (father row = None)"
      using assms(1) x pr unfolding wf_people_def list_all_iff by auto
    then show "(case x of (p, row) \<Rightarrow> person_prob one_gene two_genes have_trait p row) =
      (case x of (p, row) \<Rightarrow> gene_factor one_gene two_genes p row *
              trait_factor one_gene two_genes have_trait p)"
      using person_prob_factors [OF assms(2)] pr by simp
  qed
  finally show ?thesis .
qed

theorem joint_probability_product_witness:
  "wf_people family \<and> {''Harry''} \<inter> {''James''} = ({} :: string set) \<and>
   joint_probability family {''Harry''} {''James''} {''James''} =
     (\<Prod>(p, row) \<leftarrow> family.
        gene_factor {''Harry''} {''James''} p row * trait_factor {''Harry''} {''James''} {''James''} p) \<and>
   (\<Prod>(p, row) \<leftarrow> family.
        gene_factor {''Harry''} {''James''} p row * trait_factor {''Harry''} {''James''} {''James''} p)
     = 0.0026643247488"
proof -
  have wf: "wf_people family" by (simp add: wf_people_def family_def)
  have dj: "{''Harry''} \<inter> {''James''} = ({} :: string set)" by simp
  have "(\<Prod>(p, row) \<leftarrow> family.
        gene_factor {''Harry''} {''James''} p row * trait_factor {''Harry''} {''James''} {''James''} p)
     = 0.0026643247488"
    by (simp add: family_def gene_factor_def trait_factor_def assigned_count_def pass_def
        child_prob_def PROBS_gene_def PROBS_trait_def PROBS_mutation_def)
  then show ?thesis
    using wf dj joint_probability_product [OF wf dj, of "{''James''}"] by simp
qed

section \<open>The enumeration of the worlds\<close>

lemma filter_nil_subseqs: "filter (\<lambda>ys. ys = []) (subseqs xs) = [[]]"
  by (induction xs) (auto simp: Let_def filter_empty_conv)

lemma filter_length_Suc_map_Cons:
  "filter (\<lambda>ys. length ys = Suc r) (map ((#) x) yss) = map ((#) x) (filter (\<lambda>ys. length ys = r) yss)"
  by (induction yss) auto

lemma combinations_filter:
  "combinations xs r = filter (\<lambda>ys. length ys = r) (subseqs xs)"
proof (induction xs r rule: combinations.induct)
  case (1 xs)
  then show ?case by (simp add: filter_nil_subseqs)
next
  case (2 r)
  then show ?case by simp
next
  case (3 x xs r)
  then show ?case by (simp add: Let_def filter_length_Suc_map_Cons)
qed

lemma mset_concat_filters:
  "mset (concat (map (\<lambda>r. filter (\<lambda>y. g y = r) zs) [0..<n])) = mset (filter (\<lambda>y. g y < n) zs)"
proof (induction n)
  case 0
  then show ?case by simp
next
  case (Suc n)
  have "{#y \<in># mset zs. g y < n#} + {#y \<in># mset zs. g y = n#} = {#y \<in># mset zs. g y < Suc n#}"
    by (rule multiset_eqI) (auto simp: less_Suc_eq)
  then show ?case using Suc by simp
qed

lemma length_subseqs_le: "ys \<in> set (subseqs xs) \<Longrightarrow> length ys \<le> length xs"
  by (induction xs arbitrary: ys) (auto simp: Let_def le_SucI)

lemma mset_all_combinations:
  "mset (concat (map (\<lambda>r. combinations xs r) [0..<length xs + 1])) = mset (subseqs xs)"
proof -
  have "filter (\<lambda>y. length y < length xs + 1) (subseqs xs) = subseqs xs"
    by (rule filter_True) (auto dest: length_subseqs_le)
  then show ?thesis
    using mset_concat_filters [of length "subseqs xs" "length xs + 1"]
    by (simp add: combinations_filter)
qed

lemma mset_powerset:
  "mset (powerset to_list s) = mset (map set (subseqs (to_list s)))"
  unfolding powerset_def Let_def
  using mset_all_combinations [of "to_list s"] by (metis mset_map)

lemma powerset_props:
  assumes "valid_order to_list names" "s \<subseteq> names"
  shows "distinct (powerset to_list s)" "set (powerset to_list s) = Pow s"
proof -
  have ord: "set (to_list s) = s" "distinct (to_list s)"
    using assms unfolding valid_order_def by auto
  have "distinct (map set (subseqs (to_list s)))"
    using ord(2) by (rule distinct_set_subseqs)
  then show "distinct (powerset to_list s)"
    using mset_eq_imp_distinct_iff [OF mset_powerset] by blast
  have "set (powerset to_list s) = set (map set (subseqs (to_list s)))"
    using mset_powerset by (rule mset_eq_setD)
  also have "\<dots> = Pow (set (to_list s))"
    using subseqs_powset [of "to_list s"] by simp
  finally show "set (powerset to_list s) = Pow s" using ord(1) by simp
qed

lemma distinct_concat_map:
  assumes "distinct xs" "\<And>x. x \<in> set xs \<Longrightarrow> distinct (f x)"
    "\<And>x y. x \<in> set xs \<Longrightarrow> y \<in> set xs \<Longrightarrow> x \<noteq> y \<Longrightarrow> set (f x) \<inter> set (f y) = {}"
  shows "distinct (concat (map f xs))"
  using assms
proof (induction xs)
  case Nil
  then show ?case by simp
next
  case (Cons x xs)
  have "set (f x) \<inter> set (f y) = {}" if "y \<in> set xs" for y
    using Cons.prems(3) [of x y] Cons.prems(1) that by auto
  then have "set (f x) \<inter> (\<Union>y \<in> set xs. set (f y)) = {}" by blast
  moreover have "distinct (concat (map f xs))" using Cons by auto
  ultimately show ?case using Cons.prems(2) by simp
qed


lemma gene_partitions_set:
  assumes "valid_order to_list names"
  shows "set (gene_partitions to_list names) =
           {(one_gene, two_genes). one_gene \<subseteq> names \<and> two_genes \<subseteq> names - one_gene}"
proof -
  have "set (powerset to_list (names - s)) = Pow (names - s)" for s
    using powerset_props(2) [OF assms, of "names - s"] by auto
  moreover have "set (powerset to_list names) = Pow names"
    using powerset_props(2) [OF assms, of names] by auto
  ultimately show ?thesis
    unfolding gene_partitions_def by auto
qed

lemma gene_partitions_distinct:
  assumes "valid_order to_list names"
  shows "distinct (gene_partitions to_list names)"
  unfolding gene_partitions_def
proof (rule distinct_concat_map)
  show "distinct (powerset to_list names)"
    using powerset_props(1) [OF assms, of names] by auto
next
  fix x
  have "distinct (powerset to_list (names - x))"
    using powerset_props(1) [OF assms, of "names - x"] by auto
  then show "distinct (map (\<lambda>two_genes. (x, two_genes)) (powerset to_list (names - x)))"
    by (simp add: distinct_map inj_on_def)
next
  fix x y :: "string set"
  assume "x \<noteq> y"
  then show "set (map (\<lambda>two_genes. (x, two_genes)) (powerset to_list (names - x))) \<inter>
             set (map (\<lambda>two_genes. (y, two_genes)) (powerset to_list (names - y))) = {}"
    by auto
qed



lemma visits_set:
  assumes "valid_order to_list (set (map fst people))"
  shows "set (visits people to_list) = consistent_worlds people"
proof -
  define names where "names = set (map fst people)"
  have vo: "valid_order to_list names" using assms names_def by simp
  have ps: "set (powerset to_list names) = Pow names"
    using powerset_props(2) [OF vo, of names] by auto
  have gp: "set (gene_partitions to_list names) =
           {(one_gene, two_genes). one_gene \<subseteq> names \<and> two_genes \<subseteq> names - one_gene}"
    using vo by (rule gene_partitions_set)
  have "w \<in> set (visits people to_list) \<longleftrightarrow> w \<in> consistent_worlds people" for w
  proof -
    obtain a b h where w: "w = (a, b, h)" by (cases w)
    have "w \<in> set (visits people to_list) \<longleftrightarrow>
            h \<in> Pow names \<and> \<not> fails_evidence people h \<and> (a, b) \<in> set (gene_partitions to_list names)"
      unfolding visits_def Let_def names_def [symmetric] w
      by (auto simp: ps split: if_splits)
    also have "\<dots> \<longleftrightarrow> w \<in> consistent_worlds people"
      unfolding consistent_worlds_def Let_def names_def [symmetric] w gp by auto
    finally show ?thesis .
  qed
  then show ?thesis by blast
qed

lemma visits_distinct:
  assumes "valid_order to_list (set (map fst people))"
  shows "distinct (visits people to_list)"
  unfolding visits_def Let_def
proof (rule distinct_concat_map)
  show "distinct (powerset to_list (set (map fst people)))"
    using powerset_props(1) [OF assms, of "set (map fst people)"] by auto
next
  fix h
  show "distinct (if fails_evidence people h then []
           else map (\<lambda>(one_gene, two_genes). (one_gene, two_genes, h))
                  (gene_partitions to_list (set (map fst people))))"
    using gene_partitions_distinct [OF assms] by (auto simp: distinct_map inj_on_def)
next
  fix x y :: "string set"
  assume "x \<noteq> y"
  then show "set (if fails_evidence people x then []
           else map (\<lambda>(one_gene, two_genes). (one_gene, two_genes, x))
                  (gene_partitions to_list (set (map fst people)))) \<inter>
        set (if fails_evidence people y then []
           else map (\<lambda>(one_gene, two_genes). (one_gene, two_genes, y))
                  (gene_partitions to_list (set (map fst people)))) = {}"
    by auto
qed

lemma fold_concat_eq: "fold f (concat xss) s = fold (\<lambda>xs. fold f xs) xss s"
  by (induction xss arbitrary: s) auto

lemma main_loop_visits:
  "main_loop people to_list =
     fold (\<lambda>(one_gene, two_genes, have_trait) probabilities.
             update probabilities one_gene two_genes have_trait
               (joint_probability people one_gene two_genes have_trait))
       (visits people to_list) (init_probabilities people)"
proof -
  define names where "names = set (map fst people)"
  let ?step = "\<lambda>(one_gene, two_genes, have_trait) probabilities.
             update probabilities one_gene two_genes have_trait
               (joint_probability people one_gene two_genes have_trait)"
  let ?genes = "\<lambda>h s. fold (\<lambda>one_gene probabilities.
                        fold (\<lambda>two_genes probabilities.
                                let p = joint_probability people one_gene two_genes h
                                in update probabilities one_gene two_genes h p)
                          (powerset to_list (names - one_gene)) probabilities)
                  (powerset to_list names) s"
  have inner: "?genes h s =
          fold ?step (map (\<lambda>(one_gene, two_genes). (one_gene, two_genes, h))
                            (gene_partitions to_list names)) s" for h s
    unfolding gene_partitions_def
    by (simp add: fold_concat_eq fold_map map_concat comp_def Let_def)
  have outer: "(\<lambda>h s. if fails_evidence people h then s else ?genes h s) =
          (\<lambda>h s. fold ?step (if fails_evidence people h then []
                     else map (\<lambda>(one_gene, two_genes). (one_gene, two_genes, h))
                            (gene_partitions to_list names)) s)"
    using inner by (intro ext) simp
  have "main_loop people to_list =
      fold (\<lambda>h s. if fails_evidence people h then s else ?genes h s)
        (powerset to_list names) (init_probabilities people)"
    unfolding main_loop_def Let_def names_def [symmetric] ..
  also have "\<dots> = fold (\<lambda>h s. fold ?step (if fails_evidence people h then []
                     else map (\<lambda>(one_gene, two_genes). (one_gene, two_genes, h))
                            (gene_partitions to_list names)) s)
        (powerset to_list names) (init_probabilities people)"
    by (simp only: outer)
  also have "\<dots> = fold ?step (visits people to_list) (init_probabilities people)"
    unfolding visits_def Let_def names_def [symmetric]
    by (simp add: fold_concat_eq fold_map comp_def)
  finally show ?thesis .
qed

lemma update_entries:
  "update probs a b h x =
     map (\<lambda>(p, d). (p, d\<lparr>
        gene_acc := (\<lambda>g. gene_acc d g + (if (if p \<in> a then 1 else if p \<in> b then 2 else 0) = g then x else 0)),
        trait_acc := (\<lambda>t. trait_acc d t + (if (p \<in> h) = t then x else 0))\<rparr>)) probs"
  unfolding update_def Let_def
proof (rule map_cong [OF refl])
  fix e assume "e \<in> set probs"
  obtain p d where e: "e = (p, d)" by (cases e)
  have g: "(gene_acc d)((if p \<in> a then 1 else if p \<in> b then 2 else 0) :=
              gene_acc d (if p \<in> a then 1 else if p \<in> b then 2 else 0) + x) =
           (\<lambda>g. gene_acc d g + (if (if p \<in> a then 1 else if p \<in> b then 2 else 0) = g then x else 0))"
    by (rule ext) simp
  have t: "(trait_acc d)((if p \<in> h then True else False) :=
              trait_acc d (if p \<in> h then True else False) + x) =
           (\<lambda>t. trait_acc d t + (if (p \<in> h) = t then x else 0))"
    by (rule ext) auto
  show "(case e of (person, d) \<Rightarrow>
          (person, d\<lparr>gene_acc := (gene_acc d)
                  ((if person \<in> a then 1 else if person \<in> b then 2 else 0) :=
                     gene_acc d (if person \<in> a then 1 else if person \<in> b then 2 else 0) + x)\<rparr>
             \<lparr>trait_acc := (trait_acc
                  (d\<lparr>gene_acc := (gene_acc d)
                  ((if person \<in> a then 1 else if person \<in> b then 2 else 0) :=
                     gene_acc d (if person \<in> a then 1 else if person \<in> b then 2 else 0) + x)\<rparr>))
                  ((if person \<in> h then True else False) :=
                     trait_acc (d\<lparr>gene_acc := (gene_acc d)
                  ((if person \<in> a then 1 else if person \<in> b then 2 else 0) :=
                     gene_acc d (if person \<in> a then 1 else if person \<in> b then 2 else 0) + x)\<rparr>)
                       (if person \<in> h then True else False) + x)\<rparr>)) =
        (case e of (p, d) \<Rightarrow> (p, d\<lparr>
        gene_acc := (\<lambda>g. gene_acc d g + (if (if p \<in> a then 1 else if p \<in> b then 2 else 0) = g then x else 0)),
        trait_acc := (\<lambda>t. trait_acc d t + (if (p \<in> h) = t then x else 0))\<rparr>))"
    unfolding e prod.case using g t by simp
qed

lemma fold_update_acc:
  "fold (\<lambda>(one_gene, two_genes, have_trait) probabilities.
           update probabilities one_gene two_genes have_trait (w one_gene two_genes have_trait))
     ws probs =
   map (\<lambda>(p, d). (p, d\<lparr>
          gene_acc := (\<lambda>g. gene_acc d g +
             (\<Sum>(a, b, h) \<leftarrow> ws. if (if p \<in> a then 1 else if p \<in> b then 2 else 0) = g
                                then w a b h else 0)),
          trait_acc := (\<lambda>t. trait_acc d t +
             (\<Sum>(a, b, h) \<leftarrow> ws. if (p \<in> h) = t then w a b h else 0))\<rparr>)) probs"
proof (induction ws arbitrary: probs)
  case Nil
  have "map (\<lambda>(p, d). (p, d\<lparr>gene_acc := (\<lambda>g. gene_acc d g + 0), trait_acc := (\<lambda>t. trait_acc d t + 0)\<rparr>)) probs
          = probs"
    by (induction probs) auto
  then show ?case by simp
next
  case (Cons x ws)
  obtain a b h where x: "x = (a, b, h)" by (cases x)
  show ?case
    unfolding x
    apply (simp add: Cons.IH)
    apply (subst update_entries)
    apply (simp add: comp_def)
    apply (auto simp: add.assoc)
    done
qed

lemma sum_list_visits:
  fixes f :: "string set \<times> string set \<times> string set \<Rightarrow> real"
  assumes "valid_order to_list (set (map fst people))"
  shows "(\<Sum>x \<leftarrow> visits people to_list. f x) = (\<Sum>x \<in> consistent_worlds people. f x)"
  using sum_list_distinct_conv_sum_set [OF visits_distinct [OF assms], of f]
  by (simp add: visits_set [OF assms])

lemma bucket_assigned_count:
  assumes "(a, b, h) \<in> consistent_worlds people"
  shows "(if p \<in> a then 1 else if p \<in> b then 2 else 0) = assigned_count a b p"
  using assms unfolding consistent_worlds_def assigned_count_def Let_def by auto

lemma main_loop_sums:
  assumes "valid_order to_list (set (map fst people))"
  shows "main_loop people to_list =
           map (\<lambda>(p, row). (p, \<lparr>
              gene_acc = (\<lambda>g. \<Sum>(a, b, h) \<in> consistent_worlds people.
                            if assigned_count a b p = g then joint_probability people a b h else 0),
              trait_acc = (\<lambda>t. \<Sum>(a, b, h) \<in> consistent_worlds people.
                            if (p \<in> h) = t then joint_probability people a b h else 0)\<rparr>)) people"
proof -
  let ?W = "consistent_worlds people"
  have gene: "(\<Sum>(a, b, h) \<leftarrow> visits people to_list.
                 if (if p \<in> a then 1 else if p \<in> b then 2 else 0) = g
                 then joint_probability people a b h else 0) =
              (\<Sum>(a, b, h) \<in> ?W. if assigned_count a b p = g then joint_probability people a b h else 0)"
    for p and g :: nat
  proof -
    have "(\<Sum>(a, b, h) \<leftarrow> visits people to_list.
                 if (if p \<in> a then 1 else if p \<in> b then 2 else 0) = g
                 then joint_probability people a b h else 0) =
          (\<Sum>(a, b, h) \<in> ?W. if (if p \<in> a then 1 else if p \<in> b then 2 else 0) = g
                 then joint_probability people a b h else 0)"
      by (rule sum_list_visits [OF assms])
    also have "\<dots> = (\<Sum>(a, b, h) \<in> ?W. if assigned_count a b p = g
                 then joint_probability people a b h else 0)"
    proof (rule sum.cong [OF refl])
      fix x assume x: "x \<in> ?W"
      obtain a b h where abh: "x = (a, b, h)" by (cases x)
      show "(case x of (a, b, h) \<Rightarrow> if (if p \<in> a then 1 else if p \<in> b then 2 else 0) = g
                 then joint_probability people a b h else 0) =
            (case x of (a, b, h) \<Rightarrow> if assigned_count a b p = g
                 then joint_probability people a b h else 0)"
        using bucket_assigned_count [of a b h people p] x unfolding abh by simp
    qed
    finally show ?thesis .
  qed
  have trait: "(\<Sum>(a, b, h) \<leftarrow> visits people to_list.
                 if (p \<in> h) = t then joint_probability people a b h else 0) =
              (\<Sum>(a, b, h) \<in> ?W. if (p \<in> h) = t then joint_probability people a b h else 0)"
    for p t
    by (rule sum_list_visits [OF assms])
  show ?thesis
    unfolding main_loop_visits fold_update_acc init_probabilities_def gene trait
    by (simp add: comp_def split_def)
qed


lemma valid_order_name_order:
  assumes "names \<subseteq> {''Harry'', ''James'', ''Lily''}"
  shows "valid_order name_order names"
  unfolding valid_order_def name_order_def using assms by auto


section \<open>Normalisation never divides by zero\<close>

lemma person_prob_pos: "person_prob one_gene two_genes have_trait p row > 0"
  unfolding person_prob_def Let_def PROBS_gene_def PROBS_trait_def PROBS_mutation_def
  by (auto simp: algebra_simps)

lemma fold_person_prob_pos:
  "acc > 0 \<Longrightarrow>
   fold (\<lambda>(person, row) final_prob.
           final_prob * person_prob one_gene two_genes have_trait person row) people acc > 0"
proof (induction people arbitrary: acc)
  case Nil
  then show ?case by simp
next
  case (Cons x people)
  obtain p row where x: "x = (p, row)" by (cases x)
  have "acc * person_prob one_gene two_genes have_trait p row > 0"
    using Cons.prems person_prob_pos by simp
  then show ?case using Cons.IH x by simp
qed

lemma joint_probability_pos: "joint_probability people one_gene two_genes have_trait > 0"
  unfolding joint_probability_def by (rule fold_person_prob_pos) simp

lemma evidence_has_a_world:
  assumes "distinct (map fst people)"
  shows "\<not> fails_evidence people {p. \<exists>row. (p, row) \<in> set people \<and> trait row = Some True}"
proof
  let ?h = "{p. \<exists>row. (p, row) \<in> set people \<and> trait row = Some True}"
  assume "fails_evidence people ?h"
  then obtain p row where pr: "(p, row) \<in> set people" "trait row \<noteq> None"
      "trait row \<noteq> Some (p \<in> ?h)"
    unfolding fails_evidence_def by auto
  then obtain t where t: "trait row = Some t" by auto
  show False
  proof (cases t)
    case True
    then have "p \<in> ?h" using pr(1) t by auto
    then show False using pr(3) t True by simp
  next
    case False
    have "p \<notin> ?h"
    proof
      assume "p \<in> ?h"
      then obtain row' where r': "(p, row') \<in> set people" "trait row' = Some True" by auto
      have "row' = row" using assms pr(1) r'(1) by (metis eq_key_imp_eq_value)
      then show False using r'(2) t False by simp
    qed
    then show False using pr(3) t False by simp
  qed
qed

lemma consistent_worlds_nonempty:
  assumes "distinct (map fst people)"
  shows "({}, {}, {p. \<exists>row. (p, row) \<in> set people \<and> trait row = Some True}) \<in> consistent_worlds people"
  unfolding consistent_worlds_def Let_def
  using evidence_has_a_world [OF assms] by (auto simp: rev_image_eqI)

lemma finite_consistent_worlds: "finite (consistent_worlds people)"
proof -
  let ?P = "Pow (set (map fst people))"
  have "consistent_worlds people \<subseteq> ?P \<times> ?P \<times> ?P"
    unfolding consistent_worlds_def Let_def by auto
  moreover have "finite (?P \<times> ?P \<times> ?P)" by simp
  ultimately show ?thesis by (rule finite_subset)
qed

lemma total_mass_pos:
  assumes "distinct (map fst people)"
  shows "(\<Sum>(a, b, h) \<in> consistent_worlds people. joint_probability people a b h) > 0"
proof (rule sum_pos)
  show "finite (consistent_worlds people)" by (rule finite_consistent_worlds)
  show "consistent_worlds people \<noteq> {}"
    using consistent_worlds_nonempty [OF assms] by auto
  show "0 < (case w of (a, b, h) \<Rightarrow> joint_probability people a b h)" for w
    by (cases w) (simp add: joint_probability_pos)
qed

lemma assigned_count_le: "assigned_count a b p \<le> 2"
  by (simp add: assigned_count_def)

lemma gene_total:
  "(\<Sum>(a, b, h) \<in> W. if assigned_count a b p = 0 then (f a b h :: real) else 0) +
   (\<Sum>(a, b, h) \<in> W. if assigned_count a b p = 1 then f a b h else 0) +
   (\<Sum>(a, b, h) \<in> W. if assigned_count a b p = 2 then f a b h else 0) =
   (\<Sum>(a, b, h) \<in> W. f a b h)"
  unfolding sum.distrib [symmetric]
  by (rule sum.cong [OF refl]) (auto simp: assigned_count_def)

lemma trait_total:
  "(\<Sum>(a, b, h) \<in> W. if (p \<in> h) = False then (f a b h :: real) else 0) +
   (\<Sum>(a, b, h) \<in> W. if (p \<in> h) = True then f a b h else 0) =
   (\<Sum>(a, b, h) \<in> W. f a b h)"
  unfolding sum.distrib [symmetric]
  by (rule sum.cong [OF refl]) auto

lemma upt_0_3: "[0..<3] = [0, 1, 2]"
  by (simp add: upt_rec numeral_3_eq_3)

lemma normalize_person_zero:
  assumes "gene_acc d 0 + gene_acc d 1 + gene_acc d 2 = 0"
  shows "normalize_person d = Inl ZeroDivisionError"
  using assms by (simp add: normalize_person_def upt_0_3 py_div_def)

lemma normalize_person_Inr:
  assumes "gene_acc d 0 + gene_acc d 1 + gene_acc d 2 \<noteq> 0"
    and "trait_acc d False + trait_acc d True \<noteq> 0"
  shows "\<exists>d'. normalize_person d = Inr d'
           \<and> gene_acc d' 0 = gene_acc d 0 * (1 / (gene_acc d 0 + gene_acc d 1 + gene_acc d 2))
           \<and> gene_acc d' 1 = gene_acc d 1 * (1 / (gene_acc d 0 + gene_acc d 1 + gene_acc d 2))
           \<and> gene_acc d' 2 = gene_acc d 2 * (1 / (gene_acc d 0 + gene_acc d 1 + gene_acc d 2))
           \<and> trait_acc d' False = trait_acc d False * (1 / (trait_acc d False + trait_acc d True))
           \<and> trait_acc d' True = trait_acc d True * (1 / (trait_acc d False + trait_acc d True))"
  using assms by (simp add: normalize_person_def upt_0_3 py_div_def Let_def)

lemma normalize_Inr_iff:
  "normalize probs = Inr probs' \<longleftrightarrow>
     list_all2 (\<lambda>(p, d) (p', d'). p' = p \<and> normalize_person d = Inr d') probs probs'"
proof (induction probs arbitrary: probs')
  case Nil
  then show ?case by auto
next
  case (Cons x probs)
  obtain p d where x: "x = (p, d)" by (cases x)
  show ?case
    unfolding x
    by (cases probs') (auto simp: bind_err_Inr_iff Cons.IH)
qed

lemma normalize_total:
  assumes "\<forall>(p, d) \<in> set probs. gene_acc d 0 + gene_acc d 1 + gene_acc d 2 \<noteq> 0
              \<and> trait_acc d False + trait_acc d True \<noteq> 0"
  shows "\<exists>probs'. normalize probs = Inr probs'"
  using assms
proof (induction probs)
  case Nil
  then show ?case by simp
next
  case (Cons x probs)
  obtain p d where x: "x = (p, d)" by (cases x)
  obtain d' where "normalize_person d = Inr d'"
    using normalize_person_Inr [of d] Cons.prems x by auto
  moreover obtain rest where "normalize probs = Inr rest"
    using Cons by auto
  ultimately show ?case using x by simp
qed

lemma normalize_keys: "normalize probs = Inr probs' \<Longrightarrow> map fst probs' = map fst probs"
proof (induction probs arbitrary: probs')
  case Nil
  then show ?case by simp
next
  case (Cons x probs)
  obtain p d where x: "x = (p, d)" by (cases x)
  show ?case using Cons.prems Cons.IH unfolding x by (auto simp: bind_err_Inr_iff)
qed

lemma normalize_untouched:
  "normalize (init_probabilities people) = (if people = [] then Inr [] else Inl ZeroDivisionError)"
proof (cases people)
  case Nil
  then show ?thesis by (simp add: init_probabilities_def)
next
  case (Cons x rest)
  obtain p row where x: "x = (p, row)" by (cases x)
  show ?thesis
    unfolding Cons x init_probabilities_def
    by (simp add: normalize_person_zero)
qed

lemma main_loop_totals:
  assumes "distinct (map fst people)" "valid_order to_list (set (map fst people))"
    "(p, d) \<in> set (main_loop people to_list)"
  shows "gene_acc d 0 + gene_acc d 1 + gene_acc d 2 > 0" "trait_acc d False + trait_acc d True > 0"
proof -
  let ?W = "consistent_worlds people"
  let ?jp = "joint_probability people"
  from assms(3) have
    g: "gene_acc d = (\<lambda>g. \<Sum>(a, b, h) \<in> ?W. if assigned_count a b p = g then ?jp a b h else 0)" and
    t: "trait_acc d = (\<lambda>t. \<Sum>(a, b, h) \<in> ?W. if (p \<in> h) = t then ?jp a b h else 0)"
    unfolding main_loop_sums [OF assms(2)] by auto
  have "gene_acc d 0 + gene_acc d 1 + gene_acc d 2 = (\<Sum>(a, b, h) \<in> ?W. ?jp a b h)"
    unfolding g by (rule gene_total)
  then show "gene_acc d 0 + gene_acc d 1 + gene_acc d 2 > 0"
    using total_mass_pos [OF assms(1)] by simp
  have "trait_acc d False + trait_acc d True = (\<Sum>(a, b, h) \<in> ?W. ?jp a b h)"
    unfolding t by (rule trait_total)
  then show "trait_acc d False + trait_acc d True > 0"
    using total_mass_pos [OF assms(1)] by simp
qed

lemma main_returns:
  assumes "distinct (map fst people)" and "valid_order to_list (set (map fst people))"
  shows "\<exists>probabilities. main people to_list = Inr probabilities
           \<and> map fst probabilities = map fst people"
proof -
  have "\<forall>(p, d) \<in> set (main_loop people to_list).
          gene_acc d 0 + gene_acc d 1 + gene_acc d 2 \<noteq> 0 \<and> trait_acc d False + trait_acc d True \<noteq> 0"
    using main_loop_totals [OF assms] by fastforce
  then obtain probabilities where run: "main people to_list = Inr probabilities"
    unfolding main_def using normalize_total by blast
  have "map fst (main_loop people to_list) = map fst people"
    unfolding main_loop_sums [OF assms(2)] by (simp add: comp_def split_def)
  then have "map fst probabilities = map fst people"
    using normalize_keys run unfolding main_def by metis
  then show ?thesis using run by blast
qed

text \<open>
  No population is left without a world by the evidence filter: with pairwise different
  names the worlds that agree with the evidence are not empty, the loops visit at least
  one of them, both totals of every person are positive and \<open>main\<close> returns the
  normalised distributions.
\<close>

lemma evidence_never_contradictory:
  assumes "distinct (map fst people)" and "valid_order to_list (set (map fst people))"
  shows "consistent_worlds people \<noteq> {}
       \<and> visits people to_list \<noteq> []
       \<and> (\<forall>(p, d) \<in> set (main_loop people to_list).
             gene_acc d 0 + gene_acc d 1 + gene_acc d 2 > 0 \<and> trait_acc d False + trait_acc d True > 0)
       \<and> (\<exists>probabilities. main people to_list = Inr probabilities
             \<and> map fst probabilities = map fst people)"
proof -
  have ne: "consistent_worlds people \<noteq> {}"
    using consistent_worlds_nonempty [OF assms(1)] by auto
  then have "visits people to_list \<noteq> []"
    using visits_set [OF assms(2)] by (metis empty_set)
  moreover have "\<forall>(p, d) \<in> set (main_loop people to_list).
          gene_acc d 0 + gene_acc d 1 + gene_acc d 2 > 0 \<and> trait_acc d False + trait_acc d True > 0"
    using main_loop_totals [OF assms] by fastforce
  ultimately show ?thesis
    using ne main_returns [OF assms] by blast
qed

section \<open>A founder with trait evidence\<close>

lemma upt_0_2: "[0..<2] = [0, 1]"
  by (simp add: upt_rec numeral_2_eq_2)

lemma powerset_harry: "powerset name_order {''Harry''} = [{}, {''Harry''}]"
  by (simp add: powerset_def name_order_def upt_0_2)

lemma powerset_empty: "powerset name_order {} = [{}]"
  by (simp add: powerset_def name_order_def)

lemma fails_evidence_harry:
  "fails_evidence harry_only {}" "\<not> fails_evidence harry_only {''Harry''}"
  by (auto simp: fails_evidence_def harry_only_def)

lemma visits_harry:
  "visits harry_only name_order =
     [({}, {}, {''Harry''}), ({}, {''Harry''}, {''Harry''}), ({''Harry''}, {}, {''Harry''})]"
proof -
  have "set (map fst harry_only) = {''Harry''}" by (simp add: harry_only_def)
  then show ?thesis
    unfolding visits_def gene_partitions_def Let_def
    by (simp add: powerset_harry powerset_empty fails_evidence_harry)
qed

lemma joint_harry:
  "joint_probability harry_only {} {} {''Harry''} = 96 / 10000"
  "joint_probability harry_only {} {''Harry''} {''Harry''} = 65 / 10000"
  "joint_probability harry_only {''Harry''} {} {''Harry''} = 168 / 10000"
  by (simp_all add: joint_probability_def harry_only_def person_prob_def PROBS_gene_def
      PROBS_trait_def)

lemma main_loop_harry:
  "\<exists>d. main_loop harry_only name_order = [(''Harry'', d)]
     \<and> gene_acc d 0 = 96 / 10000 \<and> gene_acc d 1 = 168 / 10000 \<and> gene_acc d 2 = 65 / 10000
     \<and> trait_acc d True = 329 / 10000 \<and> trait_acc d False = 0"
proof -
  have init: "init_probabilities harry_only =
      [(''Harry'', \<lparr>gene_acc = (\<lambda>g. 0), trait_acc = (\<lambda>t. 0)\<rparr>)]"
    by (simp add: init_probabilities_def harry_only_def)
  show ?thesis
    unfolding main_loop_visits visits_harry init
    by (simp add: joint_harry update_def)
qed

text \<open>
  Claim C8: without recorded parents the gene distribution of every person is the prior
  \<open>0.96, 0.03, 0.01\<close>, whatever the trait evidence. For one person without parents who
  shows the trait, \<open>main\<close> returns \<open>96/329\<close>, \<open>168/329\<close> and \<open>65/329\<close>: the prior weighted
  by the probability of the trait.
\<close>

theorem founder_with_evidence_not_prior:
  "\<exists>d. main harry_only name_order = Inr [(''Harry'', d)]
     \<and> gene_acc d 0 = 96 / 329 \<and> gene_acc d 1 = 168 / 329 \<and> gene_acc d 2 = 65 / 329
     \<and> gene_acc d 0 \<noteq> PROBS_gene 0"
proof -
  obtain d where d: "main_loop harry_only name_order = [(''Harry'', d)]"
    "gene_acc d 0 = 96 / 10000" "gene_acc d 1 = 168 / 10000" "gene_acc d 2 = 65 / 10000"
    "trait_acc d True = 329 / 10000" "trait_acc d False = 0"
    using main_loop_harry by blast
  have "gene_acc d 0 + gene_acc d 1 + gene_acc d 2 \<noteq> 0"
    unfolding d(2) d(3) d(4) by simp
  moreover have "trait_acc d False + trait_acc d True \<noteq> 0"
    unfolding d(5) d(6) by simp
  ultimately have nz: "gene_acc d 0 + gene_acc d 1 + gene_acc d 2 \<noteq> 0"
    "trait_acc d False + trait_acc d True \<noteq> 0" by blast+
  from normalize_person_Inr [OF nz] obtain d' where d': "normalize_person d = Inr d'"
    "gene_acc d' 0 = gene_acc d 0 * (1 / (gene_acc d 0 + gene_acc d 1 + gene_acc d 2))"
    "gene_acc d' 1 = gene_acc d 1 * (1 / (gene_acc d 0 + gene_acc d 1 + gene_acc d 2))"
    "gene_acc d' 2 = gene_acc d 2 * (1 / (gene_acc d 0 + gene_acc d 1 + gene_acc d 2))"
    by blast
  have "main harry_only name_order = Inr [(''Harry'', d')]"
    unfolding main_def d(1) using d'(1) by simp
  moreover have "gene_acc d' 0 = 96 / 329"
    unfolding d'(2) d(2) d(3) d(4) by simp
  moreover have "gene_acc d' 1 = 168 / 329"
    unfolding d'(3) d(2) d(3) d(4) by simp
  moreover have "gene_acc d' 2 = 65 / 329"
    unfolding d'(4) d(2) d(3) d(4) by simp
  ultimately show ?thesis by (simp add: PROBS_gene_def)
qed

section \<open>Populations without recorded parents\<close>

lemma joint_probability_prod_list:
  "joint_probability people a b h = (\<Prod>(p, row) \<leftarrow> people. person_prob a b h p row)"
  unfolding joint_probability_def by (simp add: fold_times_prod_list)

lemma founder_person_prob:
  assumes "mother row = None"
  shows "person_prob a b h p row =
           PROBS_gene (if p \<in> a then 1 else if p \<in> b then 2 else 0) *
           PROBS_trait (if p \<in> a then 1 else if p \<in> b then 2 else 0) (p \<in> h)"
  using assms by (simp add: person_prob_def Let_def)

lemma founders_agree:
  assumes "founders_only ps"
    and "\<forall>q \<in> fst ` set ps. (q \<in> a) = (q \<in> a') \<and> (q \<in> b) = (q \<in> b') \<and> (q \<in> h) = (q \<in> h')"
  shows "joint_probability ps a b h = joint_probability ps a' b' h'"
proof -
  have "map (\<lambda>(p, row). person_prob a b h p row) ps = map (\<lambda>(p, row). person_prob a' b' h' p row) ps"
  proof (rule map_cong [OF refl])
    fix x assume x: "x \<in> set ps"
    obtain p row where pr: "x = (p, row)" by (cases x)
    have m: "mother row = None"
      using assms(1) x pr unfolding founders_only_def list_all_iff by auto
    have "p \<in> fst ` set ps" using x pr by (simp add: rev_image_eqI)
    then have "(p \<in> a) = (p \<in> a')" "(p \<in> b) = (p \<in> b')" "(p \<in> h) = (p \<in> h')"
      using assms(2) by blast+
    then show "(case x of (p, row) \<Rightarrow> person_prob a b h p row) =
          (case x of (p, row) \<Rightarrow> person_prob a' b' h' p row)"
      unfolding pr by (simp add: founder_person_prob [OF m])
  qed
  then have "prod_list (map (\<lambda>(p, row). person_prob a b h p row) ps) =
             prod_list (map (\<lambda>(p, row). person_prob a' b' h' p row) ps)"
    by (rule arg_cong [where f = prod_list])
  then show ?thesis by (simp only: joint_probability_prod_list)
qed

lemma founders_only_append:
  "founders_only (xs @ ys) \<longleftrightarrow> founders_only xs \<and> founders_only ys"
  by (simp add: founders_only_def)

lemma founders_change_one:
  assumes "founders_only people" "distinct (map fst people)" "(p, row) \<in> set people"
    and "\<forall>q. q \<noteq> p \<longrightarrow> (q \<in> a) = (q \<in> a') \<and> (q \<in> b) = (q \<in> b') \<and> (q \<in> h) = (q \<in> h')"
  shows "joint_probability people a b h * person_prob a' b' h' p row =
         joint_probability people a' b' h' * person_prob a b h p row"
proof -
  obtain pre post where split: "people = pre @ (p, row) # post"
    using assms(3) by (meson split_list)
  have np: "p \<notin> fst ` set pre" "p \<notin> fst ` set post"
    using assms(2) unfolding split by auto
  have f: "founders_only pre" "founders_only post"
    using assms(1) unfolding split by (simp_all add: founders_only_def)
  have agree: "(q \<in> a) = (q \<in> a') \<and> (q \<in> b) = (q \<in> b') \<and> (q \<in> h) = (q \<in> h')"
    if "q \<noteq> p" for q
    using assms(4) that by simp
  have "\<forall>q \<in> fst ` set pre. (q \<in> a) = (q \<in> a') \<and> (q \<in> b) = (q \<in> b') \<and> (q \<in> h) = (q \<in> h')"
  proof
    fix q assume "q \<in> fst ` set pre"
    then have "q \<noteq> p" using np(1) by metis
    then show "(q \<in> a) = (q \<in> a') \<and> (q \<in> b) = (q \<in> b') \<and> (q \<in> h) = (q \<in> h')"
      by (rule agree)
  qed
  then have pre: "joint_probability pre a b h = joint_probability pre a' b' h'"
    by (rule founders_agree [OF f(1)])
  have "\<forall>q \<in> fst ` set post. (q \<in> a) = (q \<in> a') \<and> (q \<in> b) = (q \<in> b') \<and> (q \<in> h) = (q \<in> h')"
  proof
    fix q assume "q \<in> fst ` set post"
    then have "q \<noteq> p" using np(2) by metis
    then show "(q \<in> a) = (q \<in> a') \<and> (q \<in> b) = (q \<in> b') \<and> (q \<in> h) = (q \<in> h')"
      by (rule agree)
  qed
  then have post: "joint_probability post a b h = joint_probability post a' b' h'"
    by (rule founders_agree [OF f(2)])
  have whole: "joint_probability people x y z =
          joint_probability pre x y z * person_prob x y z p row * joint_probability post x y z"
    for x y z
    unfolding split joint_probability_prod_list by simp
  show ?thesis
    unfolding whole [of a b h] whole [of a' b' h'] pre post by (simp only: mult_ac)
qed

lemma fails_evidence_change_one:
  assumes "distinct (map fst people)" "(p, row) \<in> set people" "trait row = None"
    and "\<forall>q. q \<noteq> p \<longrightarrow> (q \<in> h) = (q \<in> h')"
  shows "fails_evidence people h = fails_evidence people h'"
proof -
  have "(trait r \<noteq> None \<and> trait r \<noteq> Some (q \<in> h)) = (trait r \<noteq> None \<and> trait r \<noteq> Some (q \<in> h'))"
    if "(q, r) \<in> set people" for q r
  proof (cases "q = p")
    case True
    then have "r = row" using assms(1,2) that by (metis eq_key_imp_eq_value)
    then show ?thesis using assms(3) by simp
  next
    case False
    then show ?thesis using assms(4) by simp
  qed
  then show ?thesis unfolding fails_evidence_def by blast
qed

lemma reassign_consistent:
  assumes "distinct (map fst people)" "(p, row) \<in> set people" "trait row = None"
    and "w \<in> consistent_worlds people"
  shows "reassign p g t w \<in> consistent_worlds people"
proof -
  obtain a b h where w: "w = (a, b, h)" by (cases w)
  have pn: "p \<in> set (map fst people)" using assms(2) by (simp add: rev_image_eqI)
  have sub: "a \<subseteq> set (map fst people)" "b \<subseteq> set (map fst people)" "h \<subseteq> set (map fst people)"
    and dj: "a \<inter> b = {}" and ok: "\<not> fails_evidence people h"
    using assms(4) unfolding w consistent_worlds_def Let_def by auto
  have "fails_evidence people (if t then insert p h else h - {p}) = fails_evidence people h"
    by (rule fails_evidence_change_one [OF assms(1,2,3)]) auto
  then have ok': "\<not> fails_evidence people (if t then insert p h else h - {p})"
    using ok by simp
  have "(if g = 1 then insert p a else a - {p}) \<subseteq> set (map fst people)"
    "(if g = 2 then insert p b else b - {p}) \<subseteq> set (map fst people)"
    "(if t then insert p h else h - {p}) \<subseteq> set (map fst people)"
    "(if g = 1 then insert p a else a - {p}) \<inter> (if g = 2 then insert p b else b - {p}) = {}"
    using sub dj pn by auto
  then show ?thesis
    using ok' unfolding w reassign_def consistent_worlds_def Let_def by simp
qed

lemma reassign_worlds_of:
  assumes "distinct (map fst people)" "(p, row) \<in> set people" "trait row = None"
    and "w \<in> consistent_worlds people" "g \<le> 2"
  shows "reassign p g t w \<in> worlds_of people p g t"
proof -
  obtain a b h where w: "w = (a, b, h)" by (cases w)
  have "reassign p g t w \<in> consistent_worlds people"
    using assms(1-4) by (rule reassign_consistent)
  moreover have "assigned_count (if g = 1 then insert p a else a - {p})
                   (if g = 2 then insert p b else b - {p}) p = g"
    using assms(5) by (auto simp: assigned_count_def)
  moreover have "(p \<in> (if t then insert p h else h - {p})) = t" by simp
  ultimately show ?thesis
    unfolding worlds_of_def w reassign_def by simp
qed

lemma reassign_back:
  assumes "w \<in> worlds_of people p g t"
  shows "reassign p g t (reassign p g' t' w) = w"
proof -
  obtain a b h where w: "w = (a, b, h)" by (cases w)
  have dj: "a \<inter> b = {}" and c: "assigned_count a b p = g" and t: "(p \<in> h) = t"
    using assms unfolding w worlds_of_def consistent_worlds_def Let_def by auto
  have a: "(if g = 1 then insert p (if g' = 1 then insert p a else a - {p})
            else (if g' = 1 then insert p a else a - {p}) - {p}) = a"
    using c dj by (auto simp: assigned_count_def split: if_splits)
  have b: "(if g = 2 then insert p (if g' = 2 then insert p b else b - {p})
            else (if g' = 2 then insert p b else b - {p}) - {p}) = b"
    using c dj by (auto simp: assigned_count_def split: if_splits)
  have h: "(if t then insert p (if t' then insert p h else h - {p})
            else (if t' then insert p h else h - {p}) - {p}) = h"
    using t by auto
  show ?thesis
    unfolding w reassign_def prod.case a b h ..
qed

lemma worlds_of_consistent: "w \<in> worlds_of people p g t \<Longrightarrow> w \<in> consistent_worlds people"
  unfolding worlds_of_def by auto

lemma finite_worlds_of: "finite (worlds_of people p g t)"
  by (rule finite_subset [OF _ finite_consistent_worlds [of people]])
     (auto simp: worlds_of_def)

lemma mass_reindex:
  fixes F :: "string set \<times> string set \<times> string set \<Rightarrow> real"
  assumes "distinct (map fst people)" "(p, row) \<in> set people" "trait row = None" "g \<le> 2"
  shows "sum F (worlds_of people p g t) =
         (\<Sum>v \<in> worlds_of people p 0 False. F (reassign p g t v))"
proof (rule sum.reindex_bij_witness [where i = "reassign p g t" and j = "reassign p 0 False"])
  fix w assume w: "w \<in> worlds_of people p g t"
  show inv: "reassign p g t (reassign p 0 False w) = w"
    using w by (rule reassign_back)
  show "reassign p 0 False w \<in> worlds_of people p 0 False"
    using worlds_of_consistent [OF w] by (intro reassign_worlds_of [OF assms(1,2,3)]) simp_all
  show "F (reassign p g t (reassign p 0 False w)) = F w"
    using inv by simp
next
  fix v assume v: "v \<in> worlds_of people p 0 False"
  show "reassign p 0 False (reassign p g t v) = v"
    using v by (rule reassign_back)
  show "reassign p g t v \<in> worlds_of people p g t"
    using worlds_of_consistent [OF v] assms(4) by (intro reassign_worlds_of [OF assms(1,2,3)])
qed

lemma joint_probability_reassign:
  assumes "founders_only people" "distinct (map fst people)" "(p, row) \<in> set people"
    and "v \<in> worlds_of people p 0 False" "g \<le> 2"
  shows "(case reassign p g t v of (a, b, h) \<Rightarrow> joint_probability people a b h) *
           (PROBS_gene 0 * PROBS_trait 0 False) =
         (case v of (a, b, h) \<Rightarrow> joint_probability people a b h) * (PROBS_gene g * PROBS_trait g t)"
proof -
  obtain a b h where v: "v = (a, b, h)" by (cases v)
  have p: "p \<notin> a" "p \<notin> b" "p \<notin> h"
    using assms(4) unfolding v worlds_of_def by (auto simp: assigned_count_def split: if_splits)
  let ?a = "if g = 1 then insert p a else a - {p}"
  let ?b = "if g = 2 then insert p b else b - {p}"
  let ?h = "if t then insert p h else h - {p}"
  have m: "mother row = None"
    using assms(1,3) unfolding founders_only_def list_all_iff by auto
  have old: "person_prob a b h p row = PROBS_gene 0 * PROBS_trait 0 False"
    using p by (simp add: founder_person_prob [OF m])
  have bucket: "(if p \<in> ?a then 1 else if p \<in> ?b then 2 else 0) = g"
    using assms(5) p by auto
  have new: "person_prob ?a ?b ?h p row = PROBS_gene g * PROBS_trait g t"
    unfolding founder_person_prob [OF m] bucket by simp
  have "joint_probability people ?a ?b ?h * person_prob a b h p row =
        joint_probability people a b h * person_prob ?a ?b ?h p row"
    by (rule founders_change_one [OF assms(1,2,3)]) auto
  then show ?thesis
    unfolding v reassign_def prod.case old new .
qed

lemma mass_scale:
  assumes "founders_only people" "distinct (map fst people)" "(p, row) \<in> set people"
    and "trait row = None" "g \<le> 2"
  shows "(\<Sum>(a, b, h) \<in> worlds_of people p g t. joint_probability people a b h) *
           (PROBS_gene 0 * PROBS_trait 0 False) =
         (\<Sum>(a, b, h) \<in> worlds_of people p 0 False. joint_probability people a b h) *
           (PROBS_gene g * PROBS_trait g t)"
proof -
  let ?F = "\<lambda>w. case w of (a, b, h) \<Rightarrow> joint_probability people a b h"
  have "sum ?F (worlds_of people p g t) * (PROBS_gene 0 * PROBS_trait 0 False) =
        (\<Sum>v \<in> worlds_of people p 0 False. ?F (reassign p g t v)) *
          (PROBS_gene 0 * PROBS_trait 0 False)"
    by (simp only: mass_reindex [OF assms(2,3,4,5)])
  also have "\<dots> = (\<Sum>v \<in> worlds_of people p 0 False.
                      ?F (reassign p g t v) * (PROBS_gene 0 * PROBS_trait 0 False))"
    by (rule sum_distrib_right)
  also have "\<dots> = (\<Sum>v \<in> worlds_of people p 0 False. ?F v * (PROBS_gene g * PROBS_trait g t))"
    by (rule sum.cong [OF refl]) (rule joint_probability_reassign [OF assms(1,2,3) _ assms(5)])
  also have "\<dots> = sum ?F (worlds_of people p 0 False) * (PROBS_gene g * PROBS_trait g t)"
    by (rule sum_distrib_right [symmetric])
  finally show ?thesis .
qed

lemma gene_sum_split:
  "(\<Sum>(a, b, h) \<in> consistent_worlds people.
      if assigned_count a b p = g then joint_probability people a b h else 0) =
   (\<Sum>(a, b, h) \<in> worlds_of people p g True. joint_probability people a b h) +
   (\<Sum>(a, b, h) \<in> worlds_of people p g False. joint_probability people a b h)"
proof -
  let ?W = "consistent_worlds people"
  let ?F = "\<lambda>w. case w of (a, b, h) \<Rightarrow> joint_probability people a b h"
  let ?P = "\<lambda>t w. case w of (a, b, h) \<Rightarrow> assigned_count a b p = g \<and> (p \<in> h) = t"
  have filt: "sum ?F (worlds_of people p g t) = (\<Sum>w \<in> ?W. if ?P t w then ?F w else 0)" for t
  proof -
    have "worlds_of people p g t = {w \<in> ?W. ?P t w}"
      unfolding worlds_of_def by auto
    then show ?thesis
      using sum.inter_filter [OF finite_consistent_worlds, of ?F people "?P t"] by simp
  qed
  have "(\<Sum>w \<in> ?W. if ?P True w then ?F w else 0) + (\<Sum>w \<in> ?W. if ?P False w then ?F w else 0) =
        (\<Sum>w \<in> ?W. (if ?P True w then ?F w else 0) + (if ?P False w then ?F w else 0))"
    by (rule sum.distrib [symmetric])
  also have "\<dots> = (\<Sum>(a, b, h) \<in> ?W.
      if assigned_count a b p = g then joint_probability people a b h else 0)"
  proof (rule sum.cong [OF refl])
    fix w assume "w \<in> ?W"
    obtain a b h where w: "w = (a, b, h)" by (cases w)
    show "(if ?P True w then ?F w else 0) + (if ?P False w then ?F w else 0) =
          (case w of (a, b, h) \<Rightarrow>
             if assigned_count a b p = g then joint_probability people a b h else 0)"
      unfolding w prod.case by (cases "p \<in> h") simp_all
  qed
  finally show ?thesis unfolding filt by simp
qed

lemma list_all2_in_set:
  "list_all2 P xs ys \<Longrightarrow> x \<in> set xs \<Longrightarrow> \<exists>y \<in> set ys. P x y"
  by (induction rule: list_all2_induct) auto

lemma gene_sum_prior:
  assumes "founders_only people" "distinct (map fst people)" "(p, row) \<in> set people"
    and "trait row = None" "g \<le> 2"
  shows "(\<Sum>(a, b, h) \<in> consistent_worlds people.
            if assigned_count a b p = g then joint_probability people a b h else 0) *
           (PROBS_gene 0 * PROBS_trait 0 False) =
         (\<Sum>(a, b, h) \<in> worlds_of people p 0 False. joint_probability people a b h) * PROBS_gene g"
proof -
  let ?M = "\<lambda>g t. \<Sum>(a, b, h) \<in> worlds_of people p g t. joint_probability people a b h"
  let ?c = "PROBS_gene 0 * PROBS_trait 0 False"
  have one: "PROBS_trait g True + PROBS_trait g False = 1"
    by (simp add: PROBS_trait_def)
  have "(?M g True + ?M g False) * ?c = ?M g True * ?c + ?M g False * ?c"
    by (rule distrib_right)
  also have "\<dots> = ?M 0 False * (PROBS_gene g * PROBS_trait g True) +
                   ?M 0 False * (PROBS_gene g * PROBS_trait g False)"
    by (simp only: mass_scale [OF assms])
  also have "\<dots> = ?M 0 False * PROBS_gene g * (PROBS_trait g True + PROBS_trait g False)"
    by (simp only: distrib_left mult.assoc)
  also have "\<dots> = ?M 0 False * PROBS_gene g"
    by (simp only: one mult_1_right)
  finally show ?thesis by (simp only: gene_sum_split)
qed

text \<open>
  Claim C8, as amended: in a population without recorded parents, a person without trait
  evidence of their own gets the prior \<open>0.96, 0.03, 0.01\<close> as gene distribution, whatever
  the evidence about the other persons.
\<close>

theorem founder_without_evidence_prior:
  assumes "founders_only people" and "distinct (map fst people)"
    and "valid_order to_list (set (map fst people))"
    and "(p, row) \<in> set people" and "trait row = None"
  shows "\<exists>probabilities d. main people to_list = Inr probabilities
           \<and> map_of probabilities p = Some d
           \<and> gene_acc d 0 = 0.96 \<and> gene_acc d 1 = 0.03 \<and> gene_acc d 2 = 0.01"
proof -
  let ?W = "consistent_worlds people"
  let ?G = "\<lambda>g. \<Sum>(a, b, h) \<in> ?W.
              if assigned_count a b p = g then joint_probability people a b h else 0"
  let ?T = "\<lambda>t. \<Sum>(a, b, h) \<in> ?W. if (p \<in> h) = t then joint_probability people a b h else 0"
  define d0 where "d0 = \<lparr>gene_acc = ?G, trait_acc = ?T\<rparr>"
  define M where "M = (\<Sum>(a, b, h) \<in> worlds_of people p 0 False. joint_probability people a b h)"
  define K where "K = M / (PROBS_gene 0 * PROBS_trait 0 False)"
  have c: "PROBS_gene 0 * PROBS_trait 0 False \<noteq> 0"
    by (simp add: PROBS_gene_def PROBS_trait_def)
  have G: "gene_acc d0 g = K * PROBS_gene g" if "g \<le> 2" for g
  proof -
    have "?G g * (PROBS_gene 0 * PROBS_trait 0 False) = M * PROBS_gene g"
      unfolding M_def by (rule gene_sum_prior [OF assms(1,2,4,5) that])
    then have "?G g = M * PROBS_gene g / (PROBS_gene 0 * PROBS_trait 0 False)"
      using c by (simp add: nonzero_eq_divide_eq)
    then show ?thesis unfolding d0_def K_def by simp
  qed
  have G0: "gene_acc d0 0 = K * (96 / 100)" and G1: "gene_acc d0 1 = K * (3 / 100)"
    and G2: "gene_acc d0 2 = K * (1 / 100)"
    using G [of 0] G [of 1] G [of 2] by (simp_all add: PROBS_gene_def)
  have total: "gene_acc d0 0 + gene_acc d0 1 + gene_acc d0 2 = K"
    unfolding G0 G1 G2 by simp
  have mem: "(p, d0) \<in> set (main_loop people to_list)"
    unfolding main_loop_sums [OF assms(3)] d0_def using assms(4) by force
  have pos: "gene_acc d0 0 + gene_acc d0 1 + gene_acc d0 2 > 0"
    "trait_acc d0 False + trait_acc d0 True > 0"
    using main_loop_totals [OF assms(2,3) mem] by auto
  then have K: "K > 0" using total by simp
  obtain probabilities where run: "main people to_list = Inr probabilities"
    and keys: "map fst probabilities = map fst people"
    using main_returns [OF assms(2,3)] by blast
  have "list_all2 (\<lambda>(p, d) (p', d'). p' = p \<and> normalize_person d = Inr d')
          (main_loop people to_list) probabilities"
    using run unfolding main_def normalize_Inr_iff .
  from list_all2_in_set [OF this mem] obtain d where
    d: "(p, d) \<in> set probabilities" "normalize_person d0 = Inr d"
    by auto
  have "distinct (map fst probabilities)" using keys assms(2) by simp
  then have look: "map_of probabilities p = Some d" using d(1) by simp
  obtain d' where d': "normalize_person d0 = Inr d'"
    "gene_acc d' 0 = gene_acc d0 0 * (1 / (gene_acc d0 0 + gene_acc d0 1 + gene_acc d0 2))"
    "gene_acc d' 1 = gene_acc d0 1 * (1 / (gene_acc d0 0 + gene_acc d0 1 + gene_acc d0 2))"
    "gene_acc d' 2 = gene_acc d0 2 * (1 / (gene_acc d0 0 + gene_acc d0 1 + gene_acc d0 2))"
    using normalize_person_Inr [of d0] pos by force
  have same: "d' = d" using d(2) d'(1) by simp
  have "gene_acc d 0 = 96 / 100"
    unfolding same [symmetric] d'(2) total unfolding G0 using K by simp
  moreover have "gene_acc d 1 = 3 / 100"
    unfolding same [symmetric] d'(3) total unfolding G1 using K by simp
  moreover have "gene_acc d 2 = 1 / 100"
    unfolding same [symmetric] d'(4) total unfolding G2 using K by simp
  ultimately show ?thesis using run look by simp
qed

theorem founder_without_evidence_prior_witness:
  "founders_only founders2 \<and> distinct (map fst founders2)
   \<and> valid_order name_order (set (map fst founders2))
   \<and> (''Lily'', lily) \<in> set founders2 \<and> trait lily = None
   \<and> (\<exists>probabilities d. main founders2 name_order = Inr probabilities
         \<and> map_of probabilities ''Lily'' = Some d
         \<and> gene_acc d 0 = 0.96 \<and> gene_acc d 1 = 0.03 \<and> gene_acc d 2 = 0.01)"
proof -
  have f: "founders_only founders2" by (simp add: founders_only_def founders2_def lily_def)
  have d: "distinct (map fst founders2)" by (simp add: founders2_def)
  have v: "valid_order name_order (set (map fst founders2))"
    by (rule valid_order_name_order) (simp add: founders2_def)
  have m: "(''Lily'', lily) \<in> set founders2" by (simp add: founders2_def)
  have t: "trait lily = None" by (simp add: lily_def)
  show ?thesis
    using f d v m t founder_without_evidence_prior [OF f d v m t] by blast
qed

end
